theory Spec2Isabelle
  imports Main "HOL-Library.AList" "HOL-Library.Multiset"
begin

section \<open>The crossword CSP solver of \<^verbatim>\<open>Week 3 Optimization/crossword/generate.py\<close>\<close>

subsection \<open>Data model\<close>

text \<open>
  Modelled from the spec: the classes \<^verbatim>\<open>Variable\<close> and \<^verbatim>\<open>Crossword\<close> live in
  \<^verbatim>\<open>crossword.py\<close>, which is not among the sources. A slot has a starting row, a
  starting column, a direction and a length; two slots are equal iff all four agree.
\<close>

datatype direction = ACROSS | DOWN

datatype variable =
  Variable (var_i: nat) (var_j: nat) (var_direction: direction) (var_length: nat)

text \<open>
  Modelled from the spec: the puzzle model, as far as \<^verbatim>\<open>generate.py\<close> reads it.
  Python sets (\<^verbatim>\<open>variables\<close>, \<^verbatim>\<open>words\<close>, the result of \<^verbatim>\<open>neighbors\<close>) are lists
  in their enumeration order; the dictionary \<^verbatim>\<open>overlaps\<close> is an association list in
  insertion order whose values are \<^verbatim>\<open>None\<close> or a pair of indices. The method
  \<^verbatim>\<open>neighbors\<close> is a parameter of the model.
\<close>

record crossword =
  variables :: "variable list"
  words :: "string list"
  overlaps :: "((variable \<times> variable) \<times> (nat \<times> nat) option) list"
  neighbors :: "variable \<Rightarrow> variable list"

text \<open>
  The object \<^verbatim>\<open>CrosswordCreator\<close>: \<^verbatim>\<open>self.crossword\<close> and \<^verbatim>\<open>self.domains\<close>, a
  dictionary from slots to sets of words. A dictionary is an association list
  (lookup \<^const>\<open>map_of\<close>, assignment \<^const>\<open>AList.update\<close>, which replaces in place or
  appends, as a Python dict does); a set of words is the list of its elements in
  enumeration order.
\<close>

type_synonym domain_store = "(variable \<times> string list) list"

type_synonym assignment = "(variable \<times> string) list"

record creator =
  crossword :: crossword
  domains :: domain_store

datatype error = KeyError | IndexError

text \<open>\<^verbatim>\<open>d[k]\<close> on a dictionary raises \<^verbatim>\<open>KeyError\<close> for a missing key.\<close>

definition dict_get :: "('k \<times> 'v) list \<Rightarrow> 'k \<Rightarrow> error + 'v" where
  "dict_get d k = (case map_of d k of None \<Rightarrow> Inl KeyError | Some v \<Rightarrow> Inr v)"

text \<open>\<^verbatim>\<open>del d[k]\<close> raises \<^verbatim>\<open>KeyError\<close> for a missing key.\<close>

definition dict_del :: "('k \<times> 'v) list \<Rightarrow> 'k \<Rightarrow> error + ('k \<times> 'v) list" where
  "dict_del d k = (if k \<in> fst ` set d then Inr (AList.delete k d) else Inl KeyError)"

text \<open>\<^verbatim>\<open>w[k]\<close> on a string with a non-negative index raises \<^verbatim>\<open>IndexError\<close> out of range.\<close>

definition str_index :: "string \<Rightarrow> nat \<Rightarrow> error + char" where
  "str_index w k = (if k < length w then Inr (w ! k) else Inl IndexError)"

subsection \<open>\<^verbatim>\<open>__init__\<close>\<close>

definition CrosswordCreator :: "crossword \<Rightarrow> creator" where
  "CrosswordCreator cw =
     \<lparr>crossword = cw, domains = map (\<lambda>var. (var, words cw)) (variables cw)\<rparr>"

subsection \<open>\<^verbatim>\<open>enforce_node_consistency\<close>\<close>

text \<open>
  The inner loop runs over a copy of the slot's domain and removes from
  \<^verbatim>\<open>self.domains[var]\<close> every value of the wrong length.
\<close>

fun enc_values :: "variable \<Rightarrow> nat \<Rightarrow> string list \<Rightarrow> domain_store \<Rightarrow> error + domain_store" where
  "enc_values var len [] ds = Inr ds"
| "enc_values var len (val # rest) ds =
     (if length val \<noteq> len then
        (case dict_get ds var of
           Inl e \<Rightarrow> Inl e
         | Inr d \<Rightarrow> enc_values var len rest (AList.update var (removeAll val d) ds))
      else enc_values var len rest ds)"

fun enc_vars :: "variable list \<Rightarrow> domain_store \<Rightarrow> error + domain_store" where
  "enc_vars [] ds = Inr ds"
| "enc_vars (var # vars) ds =
     (case dict_get ds var of
        Inl e \<Rightarrow> Inl e
      | Inr d \<Rightarrow>
          (case enc_values var (var_length var) d ds of
             Inl e \<Rightarrow> Inl e
           | Inr ds' \<Rightarrow> enc_vars vars ds'))"

definition enforce_node_consistency :: "creator \<Rightarrow> error + creator" where
  "enforce_node_consistency c =
     (case enc_vars (map fst (domains c)) (domains c) of
        Inl e \<Rightarrow> Inl e
      | Inr ds \<Rightarrow> Inr (c\<lparr>domains := ds\<rparr>))"

subsection \<open>\<^verbatim>\<open>revise\<close>\<close>

text \<open>
  \<^verbatim>\<open>any(value_x[i] == value_y[j] for value_y in self.domains[y])\<close>: the generator
  is consumed in order and stops at the first match; an index out of range raises.
\<close>

fun has_corresponding_value :: "string \<Rightarrow> nat \<Rightarrow> nat \<Rightarrow> string list \<Rightarrow> error + bool" where
  "has_corresponding_value value_x i j [] = Inr False"
| "has_corresponding_value value_x i j (value_y # rest) =
     (case str_index value_x i of
        Inl e \<Rightarrow> Inl e
      | Inr a \<Rightarrow>
          (case str_index value_y j of
             Inl e \<Rightarrow> Inl e
           | Inr b \<Rightarrow> if a = b then Inr True else has_corresponding_value value_x i j rest))"

text \<open>
  The loop over the copy \<^verbatim>\<open>domain_x\<close>; \<^verbatim>\<open>self.domains[y]\<close> is read from the current
  store at every iteration.
\<close>

fun revise_loop ::
  "variable \<Rightarrow> variable \<Rightarrow> nat \<Rightarrow> nat \<Rightarrow> string list \<Rightarrow> domain_store \<Rightarrow> bool
     \<Rightarrow> error + (bool \<times> domain_store)" where
  "revise_loop x y i j [] ds revised = Inr (revised, ds)"
| "revise_loop x y i j (value_x # rest) ds revised =
     (case dict_get ds y of
        Inl e \<Rightarrow> Inl e
      | Inr dy \<Rightarrow>
          (case has_corresponding_value value_x i j dy of
             Inl e \<Rightarrow> Inl e
           | Inr True \<Rightarrow> revise_loop x y i j rest ds revised
           | Inr False \<Rightarrow>
               (case dict_get ds x of
                  Inl e \<Rightarrow> Inl e
                | Inr dx \<Rightarrow>
                    revise_loop x y i j rest (AList.update x (removeAll value_x dx) ds) True)))"

definition revise :: "creator \<Rightarrow> variable \<Rightarrow> variable \<Rightarrow> error + (bool \<times> creator)" where
  "revise c x y =
     (case dict_get (overlaps (crossword c)) (x, y) of
        Inl e \<Rightarrow> Inl e
      | Inr None \<Rightarrow> Inr (False, c)
      | Inr (Some (i, j)) \<Rightarrow>
          (case dict_get (domains c) x of
             Inl e \<Rightarrow> Inl e
           | Inr domain_x \<Rightarrow>
               (case revise_loop x y i j domain_x (domains c) False of
                  Inl e \<Rightarrow> Inl e
                | Inr (revised, ds) \<Rightarrow> Inr (revised, c\<lparr>domains := ds\<rparr>))))"

text \<open>The number of candidate words in the store: what every removal decreases.\<close>

definition store_size :: "domain_store \<Rightarrow> nat" where
  "store_size ds = sum_list (map (\<lambda>p. length (snd p)) ds)"

lemma dict_get_Inr [simp]: "dict_get d k = Inr v \<longleftrightarrow> map_of d k = Some v"
  by (simp add: dict_get_def split: option.splits)

lemma dict_get_Inl [simp]: "dict_get d k = Inl e \<longleftrightarrow> map_of d k = None \<and> e = KeyError"
  by (auto simp: dict_get_def split: option.splits)

lemma dict_get_Some [simp]: "map_of d k = Some v \<Longrightarrow> dict_get d k = Inr v"
  by (simp add: dict_get_def)

lemma dict_get_None [simp]: "map_of d k = None \<Longrightarrow> dict_get d k = Inl KeyError"
  by (simp add: dict_get_def)

lemma store_size_update:
  "map_of ds x = Some dx \<Longrightarrow>
   store_size (AList.update x d' ds) + length dx = store_size ds + length d'"
  by (induction ds) (auto simp: store_size_def)

lemma length_removeAll_less: "v \<in> set d \<Longrightarrow> length (removeAll v d) < length d"
  by (induction d) (auto simp: less_Suc_eq_le)

lemma length_removeAll_le: "length (removeAll v d) \<le> length d"
  by simp

lemma store_size_remove_le:
  "map_of ds x = Some dx \<Longrightarrow> store_size (AList.update x (removeAll v dx) ds) \<le> store_size ds"
  using store_size_update [of ds x dx "removeAll v dx"] length_removeAll_le [of v dx]
  by linarith

lemma store_size_remove_less:
  "map_of ds x = Some dx \<Longrightarrow> v \<in> set dx \<Longrightarrow>
   store_size (AList.update x (removeAll v dx) ds) < store_size ds"
  using store_size_update [of ds x dx "removeAll v dx"] length_removeAll_less [of v dx]
  by linarith

lemma revise_loop_mono:
  "revise_loop x y i j vs ds r = Inr (r', ds') \<Longrightarrow>
   store_size ds' \<le> store_size ds \<and> (r \<longrightarrow> r')"
proof (induction vs arbitrary: ds r)
  case Nil
  then show ?case by simp
next
  case (Cons v vs)
  then show ?case
    by (fastforce split: sum.splits bool.splits if_splits dest: store_size_remove_le
        intro: le_trans)
qed

lemma revise_loop_unrevised:
  "revise_loop x y i j vs ds r = Inr (False, ds') \<Longrightarrow> ds' = ds"
proof (induction vs arbitrary: ds r)
  case Nil
  then show ?case by simp
next
  case (Cons v vs)
  then show ?case
    by (auto split: sum.splits bool.splits if_splits dest: revise_loop_mono)
qed

lemma revise_loop_revised:
  "revise_loop x y i j vs ds False = Inr (True, ds') \<Longrightarrow>
   map_of ds x = Some dx \<Longrightarrow> set vs \<subseteq> set dx \<Longrightarrow> store_size ds' < store_size ds"
proof (induction vs arbitrary: ds)
  case Nil
  then show ?case by simp
next
  case (Cons v vs)
  show ?case
  proof (cases "\<exists>dy. map_of ds y = Some dy \<and> has_corresponding_value v i j dy = Inr True")
    case True
    with Cons.prems have "revise_loop x y i j vs ds False = Inr (True, ds')"
      by (auto split: sum.splits bool.splits)
    with Cons.IH [of ds] Cons.prems show ?thesis by simp
  next
    case False
    with Cons.prems have rec:
      "revise_loop x y i j vs (AList.update x (removeAll v dx) ds) True = Inr (True, ds')"
      by (auto split: sum.splits bool.splits)
    from Cons.prems have "v \<in> set dx" by simp
    with Cons.prems have "store_size (AList.update x (removeAll v dx) ds) < store_size ds"
      by (simp add: store_size_remove_less)
    with revise_loop_mono [OF rec] show ?thesis by simp
  qed
qed

lemma revise_unrevised: "revise c x y = Inr (False, c') \<Longrightarrow> c' = c"
  by (auto simp: revise_def split: sum.splits option.splits prod.splits
      dest: revise_loop_unrevised)

lemma revise_revised:
  "revise c x y = Inr (True, c') \<Longrightarrow> store_size (domains c') < store_size (domains c)"
  by (auto simp: revise_def split: sum.splits option.splits prod.splits
      dest: revise_loop_revised)

lemma revise_crossword: "revise c x y = Inr (r, c') \<Longrightarrow> crossword c' = crossword c"
  by (auto simp: revise_def split: sum.splits option.splits prod.splits)

subsection \<open>\<^verbatim>\<open>ac3\<close>\<close>

text \<open>
  The worklist loop: \<^verbatim>\<open>queue.pop(0)\<close> takes the head, re-enqueued arcs are appended.
  It terminates because a revision that reports a change removes a word.
\<close>

function ac3_loop :: "creator \<Rightarrow> (variable \<times> variable) list \<Rightarrow> error + (bool \<times> creator)" where
  "ac3_loop c [] = Inr (True, c)"
| "ac3_loop c ((x, y) # queue) =
     (case revise c x y of
        Inl e \<Rightarrow> Inl e
      | Inr (False, c') \<Rightarrow> ac3_loop c' queue
      | Inr (True, c') \<Rightarrow>
          (case dict_get (domains c') x of
             Inl e \<Rightarrow> Inl e
           | Inr dx \<Rightarrow>
               if length dx = 0 then Inr (False, c')
               else ac3_loop c'
                      (queue @ map (\<lambda>z. (z, x))
                                 (filter (\<lambda>z. z \<noteq> y) (neighbors (crossword c') x)))))"
  by pat_completeness auto

termination
  by (relation "inv_image (less_than <*lex*> less_than)
                  (\<lambda>(c, queue). (store_size (domains c), length queue))")
     (auto dest: revise_unrevised revise_revised)

definition ac3 :: "creator \<Rightarrow> (variable \<times> variable) list option \<Rightarrow> error + (bool \<times> creator)" where
  "ac3 c arcs =
     ac3_loop c (case arcs of None \<Rightarrow> map fst (overlaps (crossword c)) | Some as \<Rightarrow> as)"

subsection \<open>\<^verbatim>\<open>assignment_complete\<close>\<close>

definition assignment_complete :: "creator \<Rightarrow> assignment \<Rightarrow> error + (bool \<times> creator)" where
  "assignment_complete c a =
     Inr (list_all (\<lambda>variable. variable \<in> set (map fst a)) (variables (crossword c)), c)"

subsection \<open>\<^verbatim>\<open>consistent\<close>\<close>

text \<open>
  The inner loop over \<^verbatim>\<open>assignment.items()\<close> for a fixed \<^verbatim>\<open>(variable1, word1)\<close>;
  \<^verbatim>\<open>Inr False\<close> is the early \<^verbatim>\<open>return False\<close>. \<^verbatim>\<open>if overlap:\<close> holds for every pair
  of indices (a non-empty tuple) and fails for \<^verbatim>\<open>None\<close>.
\<close>

fun consistent_inner ::
  "creator \<Rightarrow> variable \<Rightarrow> string \<Rightarrow> assignment \<Rightarrow> error + bool" where
  "consistent_inner c variable1 word1 [] = Inr True"
| "consistent_inner c variable1 word1 ((variable2, word2) # rest) =
     (if variable1 \<noteq> variable2 then
        (case dict_get (overlaps (crossword c)) (variable1, variable2) of
           Inl e \<Rightarrow> Inl e
         | Inr None \<Rightarrow> consistent_inner c variable1 word1 rest
         | Inr (Some (i, j)) \<Rightarrow>
             (case str_index word1 i of
                Inl e \<Rightarrow> Inl e
              | Inr a \<Rightarrow>
                  (case str_index word2 j of
                     Inl e \<Rightarrow> Inl e
                   | Inr b \<Rightarrow>
                       if a \<noteq> b then Inr False
                       else consistent_inner c variable1 word1 rest)))
      else consistent_inner c variable1 word1 rest)"

fun consistent_outer :: "creator \<Rightarrow> assignment \<Rightarrow> assignment \<Rightarrow> error + bool" where
  "consistent_outer c [] a = Inr True"
| "consistent_outer c ((variable1, word1) # rest) a =
     (case consistent_inner c variable1 word1 a of
        Inl e \<Rightarrow> Inl e
      | Inr False \<Rightarrow> Inr False
      | Inr True \<Rightarrow> consistent_outer c rest a)"

definition consistent :: "creator \<Rightarrow> assignment \<Rightarrow> error + (bool \<times> creator)" where
  "consistent c a =
     (if card (set (map snd a)) \<noteq> length a then Inr (False, c)
      else
        (case consistent_outer c a a of
           Inl e \<Rightarrow> Inl e
         | Inr b \<Rightarrow> Inr (b, c)))"

subsection \<open>\<^verbatim>\<open>order_domain_values\<close>\<close>

text \<open>The loop over \<^verbatim>\<open>self.crossword.neighbors(var)\<close> that accumulates \<^verbatim>\<open>count\<close> (here \<open>cnt\<close>).\<close>

fun odv_count ::
  "creator \<Rightarrow> variable \<Rightarrow> assignment \<Rightarrow> string \<Rightarrow> variable list \<Rightarrow> nat \<Rightarrow> error + nat" where
  "odv_count c var a val [] cnt = Inr cnt"
| "odv_count c var a val (neighbor # rest) cnt =
     (if neighbor \<notin> set (map fst a) then
        (case dict_get (overlaps (crossword c)) (var, neighbor) of
           Inl e \<Rightarrow> Inl e
         | Inr None \<Rightarrow> odv_count c var a val rest cnt
         | Inr (Some overlap) \<Rightarrow>
             (case dict_get (domains c) neighbor of
                Inl e \<Rightarrow> Inl e
              | Inr dn \<Rightarrow>
                  odv_count c var a val rest
                    (cnt + length (filter (\<lambda>v. v \<noteq> val) dn))))
      else odv_count c var a val rest cnt)"

text \<open>The loop over \<^verbatim>\<open>domain\<close> that appends \<^verbatim>\<open>(value, count)\<close> to \<^verbatim>\<open>count_values\<close>.\<close>

fun odv_values ::
  "creator \<Rightarrow> variable \<Rightarrow> assignment \<Rightarrow> string list \<Rightarrow> (string \<times> nat) list
     \<Rightarrow> error + (string \<times> nat) list" where
  "odv_values c var a [] count_values = Inr count_values"
| "odv_values c var a (val # rest) count_values =
     (case odv_count c var a val (neighbors (crossword c) var) 0 of
        Inl e \<Rightarrow> Inl e
      | Inr cnt \<Rightarrow> odv_values c var a rest (count_values @ [(val, cnt)]))"

text \<open>\<^verbatim>\<open>list.sort\<close> is stable, as \<^const>\<open>sort_key\<close> is.\<close>

definition order_domain_values ::
  "creator \<Rightarrow> variable \<Rightarrow> assignment \<Rightarrow> error + (string list \<times> creator)" where
  "order_domain_values c var a =
     (case dict_get (domains c) var of
        Inl e \<Rightarrow> Inl e
      | Inr d \<Rightarrow>
          (case odv_values c var a d [] of
             Inl e \<Rightarrow> Inl e
           | Inr count_values \<Rightarrow> Inr (map fst (sort_key snd count_values), c)))"

subsection \<open>\<^verbatim>\<open>select_unassigned_variable\<close>\<close>

text \<open>
  \<^verbatim>\<open>len(self.domains[var])\<close> as a sort key; \<^verbatim>\<open>var\<close> ranges over the keys of
  \<^verbatim>\<open>self.domains\<close>, where the lookup cannot raise.
\<close>

definition domain_size :: "creator \<Rightarrow> variable \<Rightarrow> nat" where
  "domain_size c var = (case map_of (domains c) var of None \<Rightarrow> 0 | Some d \<Rightarrow> length d)"

text \<open>
  \<^verbatim>\<open>sort(reverse=True)\<close> keeps the order of elements with equal keys: it is the stable
  sort by the negated key. \<^verbatim>\<open>xs[0]\<close> on an empty list raises \<^verbatim>\<open>IndexError\<close>.
\<close>

definition select_unassigned_variable ::
  "creator \<Rightarrow> assignment \<Rightarrow> error + (variable \<times> creator)" where
  "select_unassigned_variable c a =
     (let unassigned_variables =
            sort_key (domain_size c)
              (filter (\<lambda>var. var \<notin> set (map fst a)) (map fst (domains c)))
      in case unassigned_variables of
           [] \<Rightarrow> Inl IndexError
         | u # _ \<Rightarrow>
             (let min_remaining_values = domain_size c u;
                  tied_variables =
                    filter (\<lambda>var. domain_size c var = min_remaining_values) unassigned_variables
              in if length tied_variables = 1 then
                   (case tied_variables of [] \<Rightarrow> Inl IndexError | t # _ \<Rightarrow> Inr (t, c))
                 else
                   (case sort_key (\<lambda>var. - int (length (neighbors (crossword c) var)))
                           tied_variables of
                      [] \<Rightarrow> Inl IndexError
                    | t # _ \<Rightarrow> Inr (t, c))))"

subsection \<open>\<^verbatim>\<open>backtrack\<close>\<close>

text \<open>
  \<^verbatim>\<open>backtrack\<close> mutates the dictionary \<^verbatim>\<open>assignment\<close> it is given and returns that same
  dictionary on success: the model returns the result, the final content of the
  dictionary, and the object \<^verbatim>\<open>self\<close>. \<^verbatim>\<open>backtrack_loop\<close> is the \<^verbatim>\<open>for value in ...\<close> loop.
\<close>

function backtrack ::
    "creator \<Rightarrow> assignment \<Rightarrow> error + (assignment option \<times> assignment \<times> creator)"
  and backtrack_loop ::
    "creator \<Rightarrow> variable \<Rightarrow> string list \<Rightarrow> assignment
       \<Rightarrow> error + (assignment option \<times> assignment \<times> creator)" where
  "backtrack c a =
     (case assignment_complete c a of
        Inl e \<Rightarrow> Inl e
      | Inr (True, c1) \<Rightarrow> Inr (Some a, a, c1)
      | Inr (False, c1) \<Rightarrow>
          (case select_unassigned_variable c1 a of
             Inl e \<Rightarrow> Inl e
           | Inr (var, c2) \<Rightarrow>
               (case order_domain_values c2 var a of
                  Inl e \<Rightarrow> Inl e
                | Inr (vals, c3) \<Rightarrow> backtrack_loop c3 var vals a)))"
| "backtrack_loop c var [] a = Inr (None, a, c)"
| "backtrack_loop c var (val # rest) a =
     (case consistent c (AList.update var val a) of
        Inl e \<Rightarrow> Inl e
      | Inr (ok, c1) \<Rightarrow>
          (case (if ok then backtrack c1 (AList.update var val a)
                 else Inr (None, AList.update var val a, c1)) of
             Inl e \<Rightarrow> Inl e
           | Inr (Some result, a2, c2) \<Rightarrow> Inr (Some result, a2, c2)
           | Inr (None, a2, c2) \<Rightarrow>
               (case dict_del a2 var of
                  Inl e \<Rightarrow> Inl e
                | Inr a3 \<Rightarrow> backtrack_loop c2 var rest a3)))"
  by pat_completeness auto


lemma assignment_complete_frame: "assignment_complete c a = Inr (b, c') \<Longrightarrow> c' = c"
  by (auto simp: assignment_complete_def)

lemma consistent_frame: "consistent c a = Inr (b, c') \<Longrightarrow> c' = c"
  by (auto simp: consistent_def split: if_splits sum.splits)

lemma order_domain_values_frame: "order_domain_values c var a = Inr (vals, c') \<Longrightarrow> c' = c"
  by (auto simp: order_domain_values_def split: sum.splits)

lemma hd_in_set_Cons: "xs = t # ts \<Longrightarrow> t \<in> set xs"
  by simp

lemma select_unassigned_variable_frame:
  assumes "select_unassigned_variable c a = Inr (var, c')"
  shows "c' = c" and "var \<in> fst ` set (domains c)" and "var \<notin> fst ` set a"
proof -
  let ?U = "sort_key (domain_size c) (filter (\<lambda>var. var \<notin> set (map fst a)) (map fst (domains c)))"
  from assms obtain u us where U: "?U = u # us"
    by (cases ?U) (auto simp: select_unassigned_variable_def)
  let ?T = "filter (\<lambda>var. domain_size c var = domain_size c u) ?U"
  let ?S = "sort_key (\<lambda>var. - int (length (neighbors (crossword c) var))) ?T"
  from assms U have sel: "c' = c \<and> (var \<in> set ?T \<or> var \<in> set ?S)"
    by (auto simp: select_unassigned_variable_def Let_def
        split: list.splits if_splits dest: hd_in_set_Cons)
  then show "c' = c" by simp
  from sel have "var \<in> set ?T" by auto
  then have "var \<in> set ?U" by simp
  then have *: "var \<in> set (filter (\<lambda>var. var \<notin> set (map fst a)) (map fst (domains c)))"
    by simp
  from * show "var \<in> fst ` set (domains c)" by simp
  from * show "var \<notin> fst ` set a" by simp
qed

lemma dict_del_Inr: "dict_del d k = Inr d' \<Longrightarrow> d' = AList.delete k d"
  by (auto simp: dict_del_def split: if_splits)

lemma delete_update_fresh: "var \<notin> fst ` set a \<Longrightarrow> AList.delete var (AList.update var val a) = a"
  by (simp add: delete_update_same)

lemma backtrack_partial:
  "backtrack_backtrack_loop_dom (Inl (c, a)) \<Longrightarrow>
     (\<forall>r a' c'. backtrack c a = Inr (r, a', c') \<longrightarrow> c' = c \<and> (r = None \<longrightarrow> a' = a))"
  "backtrack_backtrack_loop_dom (Inr (c, var, vals, a)) \<Longrightarrow>
     (\<forall>r a' c'. var \<notin> fst ` set a \<longrightarrow> backtrack_loop c var vals a = Inr (r, a', c')
        \<longrightarrow> c' = c \<and> (r = None \<longrightarrow> a' = a))"
proof (induction rule: backtrack_backtrack_loop.pinduct)
  case (1 c a)
  show ?case
  proof (intro allI impI)
    fix r a' c'
    assume eq: "backtrack c a = Inr (r, a', c')"
    show "c' = c \<and> (r = None \<longrightarrow> a' = a)"
    proof (cases "list_all (\<lambda>variable. variable \<in> set (map fst a)) (variables (crossword c))")
      case True
      with eq "1.hyps" show ?thesis
        by (simp add: backtrack.psimps assignment_complete_def)
    next
      case False
      then have ac: "assignment_complete c a = Inr (False, c)"
        by (simp add: assignment_complete_def)
      with eq "1.hyps" obtain var c2 where
        sel: "select_unassigned_variable c a = Inr (var, c2)"
        by (auto simp: backtrack.psimps split: sum.splits)
      from select_unassigned_variable_frame [OF sel]
      have c2: "c2 = c" and fresh: "var \<notin> fst ` set a"
        by blast+
      from eq "1.hyps" ac sel c2 obtain vals c3 where
        odv: "order_domain_values c var a = Inr (vals, c3)"
        by (auto simp: backtrack.psimps split: sum.splits)
      then have c3: "c3 = c" by (rule order_domain_values_frame)
      from eq "1.hyps" ac sel c2 odv c3 have
        loop: "backtrack_loop c var vals a = Inr (r, a', c')"
        by (simp add: backtrack.psimps)
      from "1.IH" [OF ac refl refl, of "(var, c)" var c "(vals, c)" vals c] sel c2 odv c3
      have "\<forall>r a' c'. var \<notin> fst ` set a \<longrightarrow> backtrack_loop c var vals a = Inr (r, a', c')
              \<longrightarrow> c' = c \<and> (r = None \<longrightarrow> a' = a)"
        by simp
      with fresh loop show ?thesis by blast
    qed
  qed
next
  case (2 c var a)
  then show ?case by (simp add: backtrack_loop.psimps)
next
  case (3 c var val rest a)
  show ?case
  proof (intro allI impI)
    fix r a' c'
    assume fresh: "var \<notin> fst ` set a"
      and eq: "backtrack_loop c var (val # rest) a = Inr (r, a', c')"
    let ?a1 = "AList.update var val a"
    from eq "3.hyps" obtain ok c1 where con: "consistent c ?a1 = Inr (ok, c1)"
      by (auto simp: backtrack_loop.psimps split: sum.splits)
    then have c1: "c1 = c" by (rule consistent_frame)
    let ?inner = "if ok then backtrack c ?a1 else Inr (None, ?a1, c)"
    from eq "3.hyps" con c1 obtain r2 a2 c2 where inner: "?inner = Inr (r2, a2, c2)"
      by (auto simp: backtrack_loop.psimps split: sum.splits)
    have frame2: "c2 = c \<and> (r2 = None \<longrightarrow> a2 = ?a1)"
    proof (cases ok)
      case True
      with "3.IH"(1) [OF con [unfolded c1] refl] inner show ?thesis by simp
    next
      case False
      with inner show ?thesis by simp
    qed
    show "c' = c \<and> (r = None \<longrightarrow> a' = a)"
    proof (cases r2)
      case (Some res)
      with eq "3.hyps" con c1 inner frame2 show ?thesis
        by (auto simp: backtrack_loop.psimps)
    next
      case None
      with frame2 have a2: "a2 = ?a1" and c2: "c2 = c" by simp_all
      have del: "dict_del ?a1 var = Inr a"
        using fresh by (simp add: dict_del_def delete_update_same dom_update)
      from eq "3.hyps" con c1 inner None a2 c2 del have
        loop: "backtrack_loop c var rest a = Inr (r, a', c')"
        by (simp add: backtrack_loop.psimps)
      from "3.IH"(2) [OF con [unfolded c1] refl, of "(r2, a2, c2)" r2 "(a2, c2)" a2 c2 a]
        inner None a2 c2 del c1
      have "\<forall>r a' c'. var \<notin> fst ` set a \<longrightarrow> backtrack_loop c var rest a = Inr (r, a', c')
              \<longrightarrow> c' = c \<and> (r = None \<longrightarrow> a' = a)"
        by simp
      with fresh loop show ?thesis by blast
    qed
  qed
qed

definition unassigned :: "creator \<Rightarrow> assignment \<Rightarrow> variable set" where
  "unassigned c a = fst ` set (domains c) - fst ` set a"

text \<open>The measure of the search: the slots that the next calls can still assign.\<close>

definition pending :: "creator \<Rightarrow> assignment \<Rightarrow> variable \<Rightarrow> nat" where
  "pending c a var = card (unassigned c a - {var})"

lemma keys_delete: "fst ` set (AList.delete k al) = fst ` set al - {k}"
  by (metis delete_keys set_map set_removeAll)

lemma unassigned_update: "card (unassigned c (AList.update var val a)) = pending c a var"
proof -
  have "unassigned c (AList.update var val a) = unassigned c a - {var}"
    by (auto simp: unassigned_def dom_update)
  then show ?thesis by (simp only: pending_def)
qed

lemma pending_delete: "pending c (AList.delete var a) var = pending c a var"
proof -
  have "unassigned c (AList.delete var a) - {var} = unassigned c a - {var}"
    by (auto simp: unassigned_def keys_delete)
  then show ?thesis by (simp only: pending_def)
qed

lemma pending_update: "pending c (AList.update var val a) var = pending c a var"
proof -
  have "unassigned c (AList.update var val a) - {var} = unassigned c a - {var}"
    by (auto simp: unassigned_def dom_update)
  then show ?thesis by (simp only: pending_def)
qed

lemma pending_less: "var \<in> unassigned c a \<Longrightarrow> pending c a var < card (unassigned c a)"
proof -
  assume v: "var \<in> unassigned c a"
  have "finite (unassigned c a)" by (simp add: unassigned_def)
  from this v have "card (unassigned c a - {var}) < card (unassigned c a)"
    by (rule card_Diff1_less)
  then show ?thesis by (simp only: pending_def)
qed

termination backtrack
proof (relation "inv_image (less_than <*lex*> less_than)
     (\<lambda>x. case x of
         Inl (c, a) \<Rightarrow> (2 * card (unassigned c a), 0)
       | Inr (c, var, vals, a) \<Rightarrow> (2 * pending c a var + 1, length vals))",
    goal_cases)
  case 1
  show ?case by auto
next
  case (2 c a b x y ba xa ya bb xb yb)
  then have "y = c" by (auto dest: assignment_complete_frame)
  with 2 have "ya = c" "xa \<in> unassigned c a"
    by (auto simp: unassigned_def dest: select_unassigned_variable_frame)
  moreover from 2 \<open>ya = c\<close> have "yb = c" by (auto dest: order_domain_values_frame)
  ultimately show ?case using pending_less [of xa c a] by simp
next
  case (3 c var val rest a b x y)
  then have "y = c" by (auto dest: consistent_frame)
  then show ?case by (simp add: unassigned_update)
next
  case (4 c var val rest a b x y ba xa ya xb yb bb)
  then have y: "y = c" by (auto dest: consistent_frame)
  have "yb = c \<and> xb = AList.update var val a"
  proof (cases x)
    case True
    with 4 have "backtrack_backtrack_loop_dom (Inl (y, AList.update var val a))"
      and "backtrack y (AList.update var val a) = Inr (None, xb, yb)"
      by auto
    with backtrack_partial(1) [of y "AList.update var val a"] y show ?thesis by blast
  next
    case False
    with 4 y show ?thesis by auto
  qed
  moreover from 4 have "bb = AList.delete var xb" by (auto dest: dict_del_Inr)
  ultimately show ?case
    by (simp add: pending_delete pending_update)
qed

subsection \<open>\<^verbatim>\<open>solve\<close>\<close>

text \<open>The result of \<^verbatim>\<open>self.ac3()\<close> is discarded; the search starts from \<^verbatim>\<open>dict()\<close>.\<close>

definition solve :: "creator \<Rightarrow> error + (assignment option \<times> creator)" where
  "solve c =
     (case enforce_node_consistency c of
        Inl e \<Rightarrow> Inl e
      | Inr c1 \<Rightarrow>
          (case ac3 c1 None of
             Inl e \<Rightarrow> Inl e
           | Inr (ok, c2) \<Rightarrow>
               (case backtrack c2 [] of
                  Inl e \<Rightarrow> Inl e
                | Inr (result, a, c3) \<Rightarrow> Inr (result, c3))))"

subsection \<open>The vocabulary of the specification\<close>

text \<open>
  Modelled from the spec: the overlap relation of \<^verbatim>\<open>crossword.py\<close>, which is not among
  the sources; a slot has a defined (non-null) overlap with another one.
\<close>

definition has_overlap :: "crossword \<Rightarrow> variable \<Rightarrow> variable \<Rightarrow> bool" where
  "has_overlap cw x y \<longleftrightarrow>
     (case map_of (overlaps cw) (x, y) of Some (Some ov) \<Rightarrow> True | _ \<Rightarrow> False)"

text \<open>
  Modelled from the spec: the contract of the puzzle model (\<^verbatim>\<open>crossword.py\<close> is not
  among the sources). The slots are distinct; \<^verbatim>\<open>overlaps\<close> has a key for every ordered
  pair of distinct slots and no other key; a defined overlap gives an index into each
  of the two slots and is symmetric; the neighbours of a slot are the slots with a
  defined overlap with it.
\<close>

definition puzzle_model :: "crossword \<Rightarrow> bool" where
  "puzzle_model cw \<longleftrightarrow>
     distinct (variables cw) \<and>
     (\<forall>k\<in>set (map fst (overlaps cw)).
        fst k \<in> set (variables cw) \<and> snd k \<in> set (variables cw)) \<and>
     (\<forall>x\<in>set (variables cw). \<forall>y\<in>set (variables cw).
        (case map_of (overlaps cw) (x, y) of
           None \<Rightarrow> x = y
         | Some None \<Rightarrow> x \<noteq> y \<and> map_of (overlaps cw) (y, x) = Some None
         | Some (Some (i, j)) \<Rightarrow>
             x \<noteq> y \<and> i < var_length x \<and> j < var_length y \<and>
             map_of (overlaps cw) (y, x) = Some (Some (j, i)))) \<and>
     (\<forall>x\<in>set (variables cw).
        distinct (neighbors cw x) \<and>
        set (neighbors cw x) = set (filter (\<lambda>y. has_overlap cw y x) (variables cw)))"

text \<open>
  The spec's words for arc consistency: \<^verbatim>\<open>wx[i] == wy[j]\<close> for some word \<open>wy\<close> of a
  domain, both indices in range.
\<close>

definition supported :: "nat \<Rightarrow> nat \<Rightarrow> string \<Rightarrow> string list \<Rightarrow> bool" where
  "supported i j wx dy \<longleftrightarrow> i < length wx \<and> (\<exists>wy\<in>set dy. j < length wy \<and> wx ! i = wy ! j)"

text \<open>
  The spec's words for consistency: two assigned words agree at the overlap of their
  slots, when the overlap is defined (both indices in range, as Python's indexing
  requires).
\<close>

definition agree :: "crossword \<Rightarrow> variable \<Rightarrow> string \<Rightarrow> variable \<Rightarrow> string \<Rightarrow> bool" where
  "agree cw v1 w1 v2 w2 \<longleftrightarrow>
     (case map_of (overlaps cw) (v1, v2) of
        Some (Some (i, j)) \<Rightarrow> i < length w1 \<and> j < length w2 \<and> w1 ! i = w2 ! j
      | _ \<Rightarrow> True)"



text \<open>
  The domain of a slot, empty for a slot that the store does not have.
\<close>

definition domain_of :: "domain_store \<Rightarrow> variable \<Rightarrow> string list" where
  "domain_of ds v = (case map_of ds v of None \<Rightarrow> [] | Some d \<Rightarrow> d)"

text \<open>
  The spec's words for the value ordering: the number of values a candidate rules out,
  summed over the unassigned neighbours of the slot with a defined overlap: for each,
  the words of the neighbour's domain that are not the candidate.
\<close>

definition rule_out_count :: "creator \<Rightarrow> variable \<Rightarrow> assignment \<Rightarrow> string \<Rightarrow> nat" where
  "rule_out_count c var a val =
     sum_list
       (map (\<lambda>neighbor. length (filter (\<lambda>v. v \<noteq> val) (domain_of (domains c) neighbor)))
          (filter (\<lambda>neighbor. neighbor \<notin> fst ` set a \<and> has_overlap (crossword c) var neighbor)
             (neighbors (crossword c) var)))"

text \<open>
  A call of one of the three operations that write the store, and a sequence of such
  calls on one object; an exception ends the sequence.
\<close>

datatype propagation_call =
  Call_enforce_node_consistency
| Call_revise variable variable
| Call_ac3 "(variable \<times> variable) list option"

fun run_call :: "creator \<Rightarrow> propagation_call \<Rightarrow> error + creator" where
  "run_call c Call_enforce_node_consistency = enforce_node_consistency c"
| "run_call c (Call_revise x y) =
     (case revise c x y of Inl e \<Rightarrow> Inl e | Inr (revised, c') \<Rightarrow> Inr c')"
| "run_call c (Call_ac3 arcs) =
     (case ac3 c arcs of Inl e \<Rightarrow> Inl e | Inr (ok, c') \<Rightarrow> Inr c')"

fun run_calls :: "creator \<Rightarrow> propagation_call list \<Rightarrow> error + creator" where
  "run_calls c [] = Inr c"
| "run_calls c (call # calls) =
     (case run_call c call of Inl e \<Rightarrow> Inl e | Inr c' \<Rightarrow> run_calls c' calls)"

subsection \<open>Invariants of the proofs\<close>

text \<open>
  The first slot of an arc is in the store and each of its words is supported by the
  domain of the second slot.
\<close>

definition arc_ok :: "domain_store \<Rightarrow> variable \<Rightarrow> variable \<Rightarrow> nat \<Rightarrow> nat \<Rightarrow> bool" where
  "arc_ok ds x y i j \<longleftrightarrow>
     (\<exists>dx. map_of ds x = Some dx \<and>
           (\<forall>wx\<in>set dx. \<exists>dy. map_of ds y = Some dy \<and> supported i j wx dy))"

text \<open>
  The invariant of the worklist: an arc with a defined overlap is waiting in the queue,
  or every word of its first slot is supported in its second slot.
\<close>

definition ac3_inv :: "crossword \<Rightarrow> (variable \<times> variable) list \<Rightarrow> domain_store \<Rightarrow> bool" where
  "ac3_inv cw queue ds \<longleftrightarrow>
     (\<forall>x y i j. map_of (overlaps cw) (x, y) = Some (Some (i, j)) \<longrightarrow>
        (x, y) \<in> set queue \<or> arc_ok ds x y i j)"

text \<open>
  The second store has the slots of the first and, for each, a subset of its words.
\<close>

definition store_le :: "domain_store \<Rightarrow> domain_store \<Rightarrow> bool" where
  "store_le ds' ds \<longleftrightarrow>
     map fst ds' = map fst ds \<and>
     (\<forall>var d'. map_of ds' var = Some d' \<longrightarrow> (\<exists>d. map_of ds var = Some d \<and> set d' \<subseteq> set d))"

text \<open>
  What a call of \<^verbatim>\<open>backtrack\<close> that returns leaves behind; \<open>entry\<close> tells whether
  the assignment given to the call may itself be the result.
\<close>

definition search_post ::
  "creator \<Rightarrow> assignment \<Rightarrow> bool \<Rightarrow> assignment option \<times> assignment \<times> creator \<Rightarrow> bool" where
  "search_post c a entry out \<longleftrightarrow>
     (case out of (r, a', c') \<Rightarrow>
        c' = c \<and>
        (case r of
           None \<Rightarrow> a' = a
         | Some res \<Rightarrow>
             res = a' \<and>
             list_all (\<lambda>variable. variable \<in> set (map fst a')) (variables (crossword c)) \<and>
             ((entry \<and> a' = a) \<or> consistent c a' = Inr (True, c)) \<and>
             (distinct (map fst a) \<longrightarrow> distinct (map fst a'))))"





subsection \<open>Small puzzles\<close>

text \<open>
  Two crossing slots of length 3: the second letter of the horizontal word is the first
  letter of the vertical one. The vocabulary has one word that fits neither slot.
\<close>

definition slot_across :: variable where
  "slot_across = Variable 0 0 ACROSS 3"

definition slot_down :: variable where
  "slot_down = Variable 0 1 DOWN 3"

definition small_puzzle :: crossword where
  "small_puzzle =
     \<lparr>variables = [slot_across, slot_down],
      words = [''CAT'', ''ART'', ''TIE'', ''HOUSE''],
      overlaps = [((slot_across, slot_down), Some (1, 0)), ((slot_down, slot_across), Some (0, 1))],
      neighbors = (\<lambda>v. if v = slot_across then [slot_down]
                        else if v = slot_down then [slot_across] else [])\<rparr>"

text \<open>
  The same grid with a vocabulary that leaves the horizontal slot without support, and
  a puzzle of one slot with an empty vocabulary.
\<close>

definition stuck_puzzle :: crossword where
  "stuck_puzzle = small_puzzle\<lparr>words := [''CAT'', ''TIE'']\<rparr>"

definition lonely_puzzle :: crossword where
  "lonely_puzzle = \<lparr>variables = [slot_across], words = [], overlaps = [], neighbors = (\<lambda>v. [])\<rparr>"

text \<open>
  Two slots of length 3 that do not cross, and a single word of that length: both slots
  would need it.
\<close>

definition slot_below :: variable where
  "slot_below = Variable 2 0 ACROSS 3"

definition twin_puzzle :: crossword where
  "twin_puzzle =
     \<lparr>variables = [slot_across, slot_below],
      words = [''CAT''],
      overlaps = [((slot_across, slot_below), None), ((slot_below, slot_across), None)],
      neighbors = (\<lambda>v. [])\<rparr>"

text \<open>
  An object for the small puzzle whose two domains differ.
\<close>

definition uneven_creator :: creator where
  "uneven_creator =
     \<lparr>crossword = small_puzzle,
      domains = [(slot_across, [''CAT'', ''ART'', ''TIE'']), (slot_down, [''ART'', ''TIE''])]\<rparr>"

section \<open>Node consistency\<close>

lemma keys_update_present:
  "map_of ds k = Some v \<Longrightarrow> map fst (AList.update k v' ds) = map fst ds"
  by (simp add: update_keys) (metis domI dom_map_of_conv_image_fst image_set)

lemma enc_values_result:
  "map_of ds var = Some d \<Longrightarrow>
   \<exists>ds'. enc_values var len vals ds = Inr ds' \<and> map fst ds' = map fst ds \<and>
         map_of ds' = (map_of ds)(var \<mapsto> filter (\<lambda>w. w \<in> set vals \<longrightarrow> length w = len) d)"
proof (induction vals arbitrary: ds d)
  case Nil
  then show ?case by (simp add: map_upd_triv)
next
  case (Cons v vs)
  show ?case
  proof (cases "length v = len")
    case True
    have "filter (\<lambda>w. w \<in> set (v # vs) \<longrightarrow> length w = len) d
        = filter (\<lambda>w. w \<in> set vs \<longrightarrow> length w = len) d"
      using True by (auto intro: filter_cong)
    with Cons.IH [OF Cons.prems] True show ?thesis by simp
  next
    case False
    let ?ds1 = "AList.update var (removeAll v d) ds"
    have l1: "map_of ?ds1 var = Some (removeAll v d)" by (simp add: update_conv')
    have "filter (\<lambda>w. w \<in> set vs \<longrightarrow> length w = len) (removeAll v d)
        = filter (\<lambda>w. w \<in> set (v # vs) \<longrightarrow> length w = len) d"
      using False by (auto simp: removeAll_filter_not_eq intro: filter_cong)
    with Cons.IH [OF l1] False Cons.prems show ?thesis
      by (auto simp: update_conv' keys_update_present intro!: ext)
  qed
qed

lemma enc_vars_result:
  "set vars \<subseteq> fst ` set ds \<Longrightarrow>
   \<exists>ds'. enc_vars vars ds = Inr ds' \<and> map fst ds' = map fst ds \<and>
         (\<forall>var. map_of ds' var =
            (if var \<in> set vars
             then map_option (filter (\<lambda>w. length w = var_length var)) (map_of ds var)
             else map_of ds var))"
proof (induction vars arbitrary: ds)
  case Nil
  then show ?case by simp
next
  case (Cons v vs)
  then obtain d where d: "map_of ds v = Some d"
    by (metis (no_types, lifting) domD dom_map_of_conv_image_fst list.set_intros(1) subsetD)
  from enc_values_result [OF d, of "var_length v" d] obtain ds1 where
    ds1: "enc_values v (var_length v) d ds = Inr ds1" "map fst ds1 = map fst ds"
      "map_of ds1 = (map_of ds)(v \<mapsto> filter (\<lambda>w. w \<in> set d \<longrightarrow> length w = var_length v) d)"
    by blast
  have f: "filter (\<lambda>w. w \<in> set d \<longrightarrow> length w = var_length v) d
         = filter (\<lambda>w. length w = var_length v) d"
    by (auto intro: filter_cong)
  from Cons.prems ds1(2) have "set vs \<subseteq> fst ` set ds1"
    by (metis image_set list.set_intros(2) subset_code(1))
  from Cons.IH [OF this] obtain ds' where
    ds': "enc_vars vs ds1 = Inr ds'" "map fst ds' = map fst ds1"
      "\<forall>var. map_of ds' var =
            (if var \<in> set vs
             then map_option (filter (\<lambda>w. length w = var_length var)) (map_of ds1 var)
             else map_of ds1 var)"
    by blast
  from d ds1 ds' f show ?case by auto
qed

lemma enforce_node_consistency_result:
  "\<exists>c'. enforce_node_consistency c = Inr c' \<and> crossword c' = crossword c \<and>
        map fst (domains c') = map fst (domains c) \<and>
        (\<forall>var. map_of (domains c') var =
           map_option (filter (\<lambda>w. length w = var_length var)) (map_of (domains c) var))"
proof -
  from enc_vars_result [of "map fst (domains c)" "domains c"] obtain ds' where
    ds': "enc_vars (map fst (domains c)) (domains c) = Inr ds'" "map fst ds' = map fst (domains c)"
      "\<forall>var. map_of ds' var =
            (if var \<in> set (map fst (domains c))
             then map_option (filter (\<lambda>w. length w = var_length var)) (map_of (domains c) var)
             else map_of (domains c) var)"
    by auto
  have "map_of ds' var = map_option (filter (\<lambda>w. length w = var_length var)) (map_of (domains c) var)"
    for var
  proof (cases "var \<in> set (map fst (domains c))")
    case True
    with ds'(3) show ?thesis by simp
  next
    case False
    then have "map_of (domains c) var = None"
      by (simp add: map_of_eq_None_iff)
    with ds'(3) False show ?thesis by simp
  qed
  with ds'(1,2) show ?thesis by (simp add: enforce_node_consistency_def)
qed

text \<open>
  Claim C4. \<^verbatim>\<open>enforce_node_consistency\<close> always returns; it keeps the puzzle and the
  slots of the store, and the domain of every slot becomes the words of its initial
  domain whose length is the slot's length, in their order: every remaining word has
  exactly that length, and every word of that length is kept.
\<close>

theorem enforce_node_consistency_filters:
  "\<exists>c'. enforce_node_consistency c = Inr c' \<and> crossword c' = crossword c \<and>
        map fst (domains c') = map fst (domains c) \<and>
        (\<forall>var d. map_of (domains c) var = Some d \<longrightarrow>
           map_of (domains c') var = Some (filter (\<lambda>w. length w = var_length var) d))"
  using enforce_node_consistency_result [of c] by auto

theorem enforce_node_consistency_filters_witness:
  "map_of (domains (CrosswordCreator small_puzzle)) slot_across
     = Some [''CAT'', ''ART'', ''TIE'', ''HOUSE''] \<and>
   (\<exists>c'. enforce_node_consistency (CrosswordCreator small_puzzle) = Inr c' \<and>
         map_of (domains c') slot_across = Some [''CAT'', ''ART'', ''TIE''])"
proof -
  have d: "map_of (domains (CrosswordCreator small_puzzle)) slot_across
     = Some [''CAT'', ''ART'', ''TIE'', ''HOUSE'']"
    by (simp add: CrosswordCreator_def small_puzzle_def)
  from enforce_node_consistency_filters [of "CrosswordCreator small_puzzle"] obtain c' where
    "enforce_node_consistency (CrosswordCreator small_puzzle) = Inr c'"
    "\<forall>var d. map_of (domains (CrosswordCreator small_puzzle)) var = Some d \<longrightarrow>
       map_of (domains c') var = Some (filter (\<lambda>w. length w = var_length var) d)"
    by blast
  with d have "enforce_node_consistency (CrosswordCreator small_puzzle) = Inr c' \<and>
    map_of (domains c') slot_across = Some [''CAT'', ''ART'', ''TIE'']"
    by (simp add: slot_across_def)
  with d show ?thesis by blast
qed

section \<open>Arc consistency\<close>

lemma has_overlap_iff:
  "has_overlap cw x y \<longleftrightarrow> (\<exists>ov. map_of (overlaps cw) (x, y) = Some (Some ov))"
  by (auto simp: has_overlap_def split: option.splits)

lemma puzzle_model_key:
  assumes "puzzle_model cw" "map_of (overlaps cw) (x, y) = Some ov"
  shows "x \<in> set (variables cw)" "y \<in> set (variables cw)" "x \<noteq> y"
proof -
  from assms(2) have "(x, y) \<in> set (map fst (overlaps cw))"
    by (metis domI dom_map_of_conv_image_fst image_set)
  with assms(1) show x: "x \<in> set (variables cw)" and y: "y \<in> set (variables cw)"
    unfolding puzzle_model_def by fastforce+
  from assms(1) x y have
    "case map_of (overlaps cw) (x, y) of
           None \<Rightarrow> x = y
         | Some None \<Rightarrow> x \<noteq> y \<and> map_of (overlaps cw) (y, x) = Some None
         | Some (Some (i, j)) \<Rightarrow>
             x \<noteq> y \<and> i < var_length x \<and> j < var_length y \<and>
             map_of (overlaps cw) (y, x) = Some (Some (j, i))"
    unfolding puzzle_model_def by blast
  with assms(2) show "x \<noteq> y" by (auto split: option.splits)
qed

lemma puzzle_model_sym:
  assumes "puzzle_model cw" "map_of (overlaps cw) (x, y) = Some (Some (i, j))"
  shows "map_of (overlaps cw) (y, x) = Some (Some (j, i))" "i < var_length x" "j < var_length y"
proof -
  from puzzle_model_key [OF assms] have x: "x \<in> set (variables cw)" and y: "y \<in> set (variables cw)"
    by blast+
  from assms(1) x y have
    "case map_of (overlaps cw) (x, y) of
           None \<Rightarrow> x = y
         | Some None \<Rightarrow> x \<noteq> y \<and> map_of (overlaps cw) (y, x) = Some None
         | Some (Some (i, j)) \<Rightarrow>
             x \<noteq> y \<and> i < var_length x \<and> j < var_length y \<and>
             map_of (overlaps cw) (y, x) = Some (Some (j, i))"
    unfolding puzzle_model_def by blast
  with assms(2) show "map_of (overlaps cw) (y, x) = Some (Some (j, i))" "i < var_length x"
    "j < var_length y" by auto
qed


lemma puzzle_model_neighbors:
  assumes "puzzle_model cw" "x \<in> set (variables cw)"
  shows "set (neighbors cw x) =
          {y \<in> set (variables cw). \<exists>ov. map_of (overlaps cw) (y, x) = Some (Some ov)}"
proof -
  from assms have "set (neighbors cw x) = set (filter (\<lambda>y. has_overlap cw y x) (variables cw))"
    unfolding puzzle_model_def by blast
  then show ?thesis by (auto simp: has_overlap_iff)
qed

lemma puzzle_model_neighbor_of:
  assumes "puzzle_model cw" "map_of (overlaps cw) (z, x) = Some (Some ov)"
  shows "z \<in> set (neighbors cw x)"
  using puzzle_model_key [OF assms] puzzle_model_neighbors [OF assms(1), of x] assms(2)
  by auto


lemma str_index_Inr [simp]: "str_index w k = Inr ch \<longleftrightarrow> k < length w \<and> ch = w ! k"
  by (auto simp: str_index_def)

lemma str_index_Inl [simp]: "str_index w k = Inl e \<longleftrightarrow> \<not> k < length w \<and> e = IndexError"
  by (auto simp: str_index_def)

lemma str_index_in_range [simp]: "k < length w \<Longrightarrow> str_index w k = Inr (w ! k)"
  by (simp add: str_index_def)

lemma has_corresponding_value_supported:
  "has_corresponding_value w i j dy = Inr b \<Longrightarrow> b = supported i j w dy"
proof (induction dy)
  case Nil
  then show ?case by (simp add: supported_def)
next
  case (Cons wy dy)
  then show ?case
    by (auto simp: supported_def split: sum.splits if_splits)
qed

lemma has_corresponding_value_total:
  "i < length w \<Longrightarrow> \<forall>wy\<in>set dy. j < length wy \<Longrightarrow>
   has_corresponding_value w i j dy = Inr (supported i j w dy)"
  by (induction dy) (auto simp: supported_def)

lemma revise_loop_result:
  "x \<noteq> y \<Longrightarrow> map_of ds x = Some dx \<Longrightarrow> revise_loop x y i j vs ds r = Inr (r', ds') \<Longrightarrow>
   map fst ds' = map fst ds \<and>
   map_of ds' = (map_of ds)(x \<mapsto> filter (\<lambda>w. w \<in> set vs \<longrightarrow> supported i j w (domain_of ds y)) dx) \<and>
   (vs \<noteq> [] \<longrightarrow> map_of ds y \<noteq> None)"
proof (induction vs arbitrary: ds dx r)
  case Nil
  then show ?case by (auto simp: map_upd_triv)
next
  case (Cons v vs)
  from Cons.prems(3) obtain dy where dy: "map_of ds y = Some dy"
    by (auto split: sum.splits)
  then have dof: "domain_of ds y = dy" by (simp add: domain_of_def)
  from Cons.prems(3) dy obtain b where b: "has_corresponding_value v i j dy = Inr b"
    by (auto split: sum.splits)
  then have bs: "b = supported i j v dy" by (rule has_corresponding_value_supported)
  show ?case
  proof (cases b)
    case True
    with Cons.prems(3) dy b have rec: "revise_loop x y i j vs ds r = Inr (r', ds')"
      by simp
    have "filter (\<lambda>w. w \<in> set (v # vs) \<longrightarrow> supported i j w dy) dx
        = filter (\<lambda>w. w \<in> set vs \<longrightarrow> supported i j w dy) dx"
      using True bs by (auto intro: filter_cong)
    with Cons.IH [OF Cons.prems(1,2) rec] dy dof show ?thesis by simp
  next
    case False
    let ?ds1 = "AList.update x (removeAll v dx) ds"
    from Cons.prems(2,3) dy b False have rec: "revise_loop x y i j vs ?ds1 True = Inr (r', ds')"
      by simp
    have x1: "map_of ?ds1 x = Some (removeAll v dx)" by (simp add: update_conv')
    from Cons.prems(1) dy have "map_of ?ds1 y = Some dy" by (simp add: update_conv')
    then have dof1: "domain_of ?ds1 y = dy" by (simp add: domain_of_def)
    have k1: "map fst ?ds1 = map fst ds" using Cons.prems(2) by (rule keys_update_present)
    have "filter (\<lambda>w. w \<in> set vs \<longrightarrow> supported i j w dy) (removeAll v dx)
        = filter (\<lambda>w. w \<in> set (v # vs) \<longrightarrow> supported i j w dy) dx"
      using False bs by (auto simp: removeAll_filter_not_eq intro: filter_cong)
    then have F: "filter (\<lambda>w. w \<in> set vs \<longrightarrow> supported i j w (domain_of ?ds1 y)) (removeAll v dx)
        = filter (\<lambda>w. w \<in> set (v # vs) \<longrightarrow> supported i j w (domain_of ds y)) dx"
      by (simp only: dof dof1)
    from Cons.IH [OF Cons.prems(1) x1 rec] have
      ih1: "map fst ds' = map fst ?ds1" and
      ih2: "map_of ds' = (map_of ?ds1)(x \<mapsto>
              filter (\<lambda>w. w \<in> set vs \<longrightarrow> supported i j w (domain_of ?ds1 y)) (removeAll v dx))"
      by blast+
    have "map_of ds' = (map_of ds)(x \<mapsto>
            filter (\<lambda>w. w \<in> set (v # vs) \<longrightarrow> supported i j w (domain_of ds y)) dx)"
      unfolding ih2 F by (simp add: update_conv')
    with ih1 k1 dy show ?thesis by simp
  qed
qed

text \<open>What \<^verbatim>\<open>revise\<close> does on an arc with a defined overlap.\<close>

lemma revise_result:
  assumes "x \<noteq> y" "map_of (overlaps (crossword c)) (x, y) = Some (Some (i, j))"
    and "revise c x y = Inr (r, c')"
  shows "\<exists>dx. map_of (domains c) x = Some dx \<and>
          crossword c' = crossword c \<and>
          map fst (domains c') = map fst (domains c) \<and>
          map_of (domains c') =
            (map_of (domains c))(x \<mapsto> filter (\<lambda>w. supported i j w (domain_of (domains c) y)) dx) \<and>
          (dx \<noteq> [] \<longrightarrow> map_of (domains c) y \<noteq> None)"
proof -
  from assms(2,3) obtain dx where dx: "map_of (domains c) x = Some dx"
    by (auto simp: revise_def split: sum.splits)
  from assms(2,3) dx obtain ds' where
    loop: "revise_loop x y i j dx (domains c) False = Inr (r, ds')" and c': "c' = c\<lparr>domains := ds'\<rparr>"
    by (auto simp: revise_def split: sum.splits)
  have "filter (\<lambda>w. w \<in> set dx \<longrightarrow> supported i j w (domain_of (domains c) y)) dx
      = filter (\<lambda>w. supported i j w (domain_of (domains c) y)) dx"
    by (auto intro: filter_cong)
  with revise_loop_result [OF assms(1) dx loop] dx c' show ?thesis by simp
qed

lemma revise_arc_ok:
  assumes "x \<noteq> y" "map_of (overlaps (crossword c)) (x, y) = Some (Some (i, j))"
    and "revise c x y = Inr (r, c')"
  shows "arc_ok (domains c') x y i j"
proof -
  from revise_result [OF assms] obtain dx where
    dx: "map_of (domains c) x = Some dx"
    and m: "map_of (domains c') =
            (map_of (domains c))(x \<mapsto> filter (\<lambda>w. supported i j w (domain_of (domains c) y)) dx)"
    and y: "dx \<noteq> [] \<longrightarrow> map_of (domains c) y \<noteq> None"
    by blast
  let ?F = "filter (\<lambda>w. supported i j w (domain_of (domains c) y)) dx"
  have x': "map_of (domains c') x = Some ?F"
    by (simp add: m)
  have "\<exists>dy. map_of (domains c') y = Some dy \<and> supported i j wx dy" if "wx \<in> set ?F" for wx
  proof -
    from that have wx: "wx \<in> set dx" and s: "supported i j wx (domain_of (domains c) y)" by auto
    from wx y obtain dy where dy: "map_of (domains c) y = Some dy" by auto
    with assms(1) m have "map_of (domains c') y = Some dy" by simp
    moreover from s dy have "supported i j wx dy" by (simp add: domain_of_def)
    ultimately show ?thesis by blast
  qed
  with x' show ?thesis unfolding arc_ok_def by blast
qed

lemma arc_ok_shrink:
  assumes "arc_ok ds u v k l" "map_of ds x = Some dx" "map_of ds' = (map_of ds)(x \<mapsto> dx')"
    and "set dx' \<subseteq> set dx" "v \<noteq> x"
  shows "arc_ok ds' u v k l"
proof -
  from assms(1) obtain du where du: "map_of ds u = Some du"
    and sup: "\<forall>wu\<in>set du. \<exists>dv. map_of ds v = Some dv \<and> supported k l wu dv"
    unfolding arc_ok_def by blast
  from assms(3,5) have v: "map_of ds' v = map_of ds v" by simp
  show ?thesis
  proof (cases "u = x")
    case True
    with du assms(2) have "du = dx" by simp
    with assms(3,4) True sup v have "map_of ds' u = Some dx'"
      "\<forall>wu\<in>set dx'. \<exists>dv. map_of ds' v = Some dv \<and> supported k l wu dv"
      by auto
    then show ?thesis unfolding arc_ok_def by blast
  next
    case False
    with assms(3) du have "map_of ds' u = Some du" by simp
    with sup v show ?thesis unfolding arc_ok_def by auto
  qed
qed

lemma arc_ok_reverse:
  assumes "arc_ok ds y x j i" "x \<noteq> y" "map_of ds x = Some dx"
    and "map_of ds' = (map_of ds)(x \<mapsto> filter (\<lambda>w. supported i j w (domain_of ds y)) dx)"
  shows "arc_ok ds' y x j i"
proof -
  from assms(1,3) obtain dy where dy: "map_of ds y = Some dy"
    and sup: "\<forall>wy\<in>set dy. supported j i wy dx"
    unfolding arc_ok_def by auto
  from dy have dof: "domain_of ds y = dy" by (simp add: domain_of_def)
  from assms(2,4) dy have y': "map_of ds' y = Some dy" by simp
  have "supported j i wy (filter (\<lambda>w. supported i j w dy) dx)" if "wy \<in> set dy" for wy
  proof -
    from sup that obtain wx where "j < length wy" "wx \<in> set dx" "i < length wx" "wy ! j = wx ! i"
      unfolding supported_def by blast
    moreover from this that have "supported i j wx dy"
      unfolding supported_def by auto
    ultimately show ?thesis unfolding supported_def by auto
  qed
  with y' assms(4) dof show ?thesis unfolding arc_ok_def by auto
qed

lemma ac3_inv_revised:
  assumes pm: "puzzle_model (crossword c)"
    and inv: "ac3_inv (crossword c) ((x, y) # queue) (domains c)"
    and rev: "revise c x y = Inr (r, c1)"
  shows "ac3_inv (crossword c)
           (queue @ map (\<lambda>z. (z, x)) (filter (\<lambda>z. z \<noteq> y) (neighbors (crossword c) x)))
           (domains c1)"
    and "r \<or> ac3_inv (crossword c) queue (domains c1)"
proof -
  let ?cw = "crossword c"
  let ?q' = "queue @ map (\<lambda>z. (z, x)) (filter (\<lambda>z. z \<noteq> y) (neighbors ?cw x))"
  have arcs: "(u, v) \<in> set queue \<or> (r \<and> v = x \<and> u \<noteq> y) \<or> arc_ok (domains c1) u v k l"
    if ov: "map_of (overlaps ?cw) (u, v) = Some (Some (k, l))" for u v k l
  proof (cases "map_of (overlaps ?cw) (x, y)")
    case None
    with rev show ?thesis by (simp add: revise_def)
  next
    case (Some o1)
    show ?thesis
    proof (cases o1)
      case None
      with Some rev have "c1 = c" by (simp add: revise_def)
      moreover from Some None ov have "(u, v) \<noteq> (x, y)" by auto
      ultimately show ?thesis using inv ov unfolding ac3_inv_def by auto
    next
      case (Some ij)
      obtain i j where ij: "ij = (i, j)" by (cases ij)
      with Some \<open>map_of (overlaps ?cw) (x, y) = Some o1\<close>
      have oxy: "map_of (overlaps ?cw) (x, y) = Some (Some (i, j))" by simp
      from puzzle_model_key [OF pm oxy] have xy: "x \<noteq> y" by simp
      from revise_result [OF xy oxy rev] obtain dx where
        dx: "map_of (domains c) x = Some dx" and
        m: "map_of (domains c1) =
              (map_of (domains c))(x \<mapsto> filter (\<lambda>w. supported i j w (domain_of (domains c) y)) dx)"
        by blast
      show ?thesis
      proof (cases "(u, v) = (x, y)")
        case True
        with ov oxy have "k = i" "l = j" by simp_all
        with True revise_arc_ok [OF xy oxy rev] show ?thesis by simp
      next
        case False
        show ?thesis
        proof (cases "(u, v) \<in> set queue")
          case True
          then show ?thesis by simp
        next
          case notq: False
          with inv ov False have ok: "arc_ok (domains c) u v k l"
            unfolding ac3_inv_def by auto
          show ?thesis
          proof (cases "v = x")
            case vx: False
            from arc_ok_shrink [OF ok dx m _ vx] show ?thesis by simp
          next
            case vx: True
            show ?thesis
            proof (cases "u = y")
              case True
              from puzzle_model_sym(1) [OF pm oxy] ov vx True have "k = j" "l = i" by simp_all
              with ok vx True arc_ok_reverse [OF _ xy dx m] show ?thesis by simp
            next
              case uy: False
              show ?thesis
              proof (cases r)
                case True
                with vx uy show ?thesis by simp
              next
                case False
                with rev have "c1 = c" by (simp add: revise_unrevised)
                with ok show ?thesis by simp
              qed
            qed
          qed
        qed
      qed
    qed
  qed
  show "ac3_inv ?cw ?q' (domains c1)"
    unfolding ac3_inv_def
  proof (intro allI impI)
    fix u v k l assume ov: "map_of (overlaps ?cw) (u, v) = Some (Some (k, l))"
    from arcs [OF ov] consider "(u, v) \<in> set queue" | "v = x" "u \<noteq> y" | "arc_ok (domains c1) u v k l"
      by blast
    then show "(u, v) \<in> set ?q' \<or> arc_ok (domains c1) u v k l"
    proof cases
      case 1
      then show ?thesis by simp
    next
      case 2
      with ov puzzle_model_neighbor_of [OF pm, of u x "(k, l)"] have "u \<in> set (neighbors ?cw x)"
        by simp
      with 2 show ?thesis by auto
    next
      case 3
      then show ?thesis by simp
    qed
  qed
  show "r \<or> ac3_inv ?cw queue (domains c1)"
    unfolding ac3_inv_def using arcs by blast
qed

lemma ac3_loop_inv:
  "puzzle_model (crossword c) \<Longrightarrow> ac3_inv (crossword c) queue (domains c) \<Longrightarrow>
   ac3_loop c queue = Inr (True, c') \<Longrightarrow>
   ac3_inv (crossword c') [] (domains c') \<and> crossword c' = crossword c"
proof (induction c queue rule: ac3_loop.induct)
  case (1 c)
  then show ?case by simp
next
  case (2 c x y queue)
  from "2.prems"(3) obtain r c1 where rev: "revise c x y = Inr (r, c1)"
    by (auto split: sum.splits)
  then have cw1: "crossword c1 = crossword c" by (rule revise_crossword)
  from "2.prems"(1) cw1 have pm1: "puzzle_model (crossword c1)" by simp
  show ?case
  proof (cases r)
    case False
    with "2.prems"(3) rev have loop: "ac3_loop c1 queue = Inr (True, c')" by simp
    from ac3_inv_revised(2) [OF "2.prems"(1,2) rev] False
    have inv1: "ac3_inv (crossword c1) queue (domains c1)" by (simp add: cw1)
    from False have "r = False" by simp
    from "2.IH"(2) [OF rev refl this pm1 inv1 loop]
    have res: "ac3_inv (crossword c') [] (domains c')" "crossword c' = crossword c1" by blast+
    from res(1) res(2) cw1 show ?thesis by (simp only:)
  next
    case True
    with "2.prems"(3) rev obtain dx where dx: "dict_get (domains c1) x = Inr dx"
      by (auto split: sum.splits)
    with "2.prems"(3) rev True have ne: "length dx \<noteq> 0"
      and loop: "ac3_loop c1 (queue @ map (\<lambda>z. (z, x))
                   (filter (\<lambda>z. z \<noteq> y) (neighbors (crossword c1) x))) = Inr (True, c')"
      by (auto split: if_splits)
    from ac3_inv_revised(1) [OF "2.prems"(1,2) rev]
    have inv1: "ac3_inv (crossword c1) (queue @ map (\<lambda>z. (z, x))
                   (filter (\<lambda>z. z \<noteq> y) (neighbors (crossword c1) x))) (domains c1)"
      by (simp add: cw1)
    from True have "r = True" by simp
    from "2.IH"(1) [OF rev refl this dx ne pm1 inv1 loop]
    have res: "ac3_inv (crossword c') [] (domains c')" "crossword c' = crossword c1" by blast+
    from res(1) res(2) cw1 show ?thesis by (simp only:)
  qed
qed

lemma ac3_loop_crossword:
  "ac3_loop c queue = Inr (b, c') \<Longrightarrow> crossword c' = crossword c"
proof (induction c queue rule: ac3_loop.induct)
  case (1 c)
  then show ?case by simp
next
  case (2 c x y queue)
  from "2.prems" obtain r c1 where rev: "revise c x y = Inr (r, c1)"
    by (auto split: sum.splits)
  then have cw1: "crossword c1 = crossword c" by (rule revise_crossword)
  show ?case
  proof (cases r)
    case False
    with "2.prems" rev have "ac3_loop c1 queue = Inr (b, c')" by simp
    from "2.IH"(2) [OF rev refl _ this] False cw1 show ?thesis by simp
  next
    case True
    with "2.prems" rev obtain dx where dx: "dict_get (domains c1) x = Inr dx"
      by (auto split: sum.splits)
    show ?thesis
    proof (cases "length dx = 0")
      case e: True
      with "2.prems" rev True dx have "c' = c1" by simp
      with cw1 show ?thesis by simp
    next
      case ne: False
      with "2.prems" rev True dx have
        "ac3_loop c1 (queue @ map (\<lambda>z. (z, x))
                   (filter (\<lambda>z. z \<noteq> y) (neighbors (crossword c1) x))) = Inr (b, c')"
        by simp
      from "2.IH"(1) [OF rev refl _ dx ne this] True cw1 show ?thesis by simp
    qed
  qed
qed

text \<open>Failure is reported right after a revision that emptied the domain it revised.\<close>

lemma ac3_loop_False:
  "ac3_loop c queue = Inr (False, c') \<Longrightarrow>
   \<exists>x y c1. revise c1 x y = Inr (True, c') \<and> map_of (domains c') x = Some []"
proof (induction c queue rule: ac3_loop.induct)
  case (1 c)
  then show ?case by simp
next
  case (2 c x y queue)
  from "2.prems" obtain r c1 where rev: "revise c x y = Inr (r, c1)"
    by (auto split: sum.splits)
  show ?case
  proof (cases r)
    case False
    with "2.prems" rev have "ac3_loop c1 queue = Inr (False, c')" by simp
    from "2.IH"(2) [OF rev refl _ this] False show ?thesis by simp
  next
    case True
    with "2.prems" rev obtain dx where dx: "dict_get (domains c1) x = Inr dx"
      by (auto split: sum.splits)
    show ?thesis
    proof (cases "length dx = 0")
      case e: True
      with "2.prems" rev True dx have "c' = c1" by simp
      with rev True dx e show ?thesis by auto
    next
      case ne: False
      with "2.prems" rev True dx have
        "ac3_loop c1 (queue @ map (\<lambda>z. (z, x))
                   (filter (\<lambda>z. z \<noteq> y) (neighbors (crossword c1) x))) = Inr (False, c')"
        by simp
      from "2.IH"(1) [OF rev refl _ dx ne this] True show ?thesis by simp
    qed
  qed
qed

lemma revise_True_nonempty:
  "revise c x y = Inr (True, c') \<Longrightarrow> \<exists>dx. map_of (domains c) x = Some dx \<and> dx \<noteq> []"
  by (auto simp: revise_def split: sum.splits option.splits)

lemma ac3_inv_initial: "ac3_inv cw (map fst (overlaps cw)) ds"
  unfolding ac3_inv_def
  by (metis domI dom_map_of_conv_image_fst image_set)

lemma ac3_arcs_ok:
  assumes "puzzle_model (crossword c)" "ac3 c None = Inr (True, c')"
    and "map_of (overlaps (crossword c)) (x, y) = Some (Some (i, j))"
  shows "\<exists>dx dy. map_of (domains c') x = Some dx \<and> map_of (domains c') y = Some dy \<and>
           (\<forall>wx\<in>set dx. supported i j wx dy) \<and> (\<forall>wy\<in>set dy. supported j i wy dx)"
proof -
  from assms(2) have loop: "ac3_loop c (map fst (overlaps (crossword c))) = Inr (True, c')"
    by (simp add: ac3_def)
  from ac3_loop_inv [OF assms(1) ac3_inv_initial loop]
  have inv: "ac3_inv (crossword c) [] (domains c')" by metis
  from puzzle_model_sym(1) [OF assms(1,3)]
  have sym: "map_of (overlaps (crossword c)) (y, x) = Some (Some (j, i))" .
  from inv assms(3) have "arc_ok (domains c') x y i j" unfolding ac3_inv_def by auto
  moreover from inv sym have "arc_ok (domains c') y x j i" unfolding ac3_inv_def by auto
  ultimately show ?thesis unfolding arc_ok_def by fastforce
qed

lemma revise_loop_noop:
  "(vs \<noteq> [] \<longrightarrow> map_of ds y = Some dy) \<Longrightarrow>
   \<forall>w\<in>set vs. has_corresponding_value w i j dy = Inr True \<Longrightarrow>
   revise_loop x y i j vs ds r = Inr (r, ds)"
  by (induction vs) auto

lemma revise_noop:
  assumes "map_of (overlaps (crossword c)) (x, y) = Some (Some (i, j))"
    and "map_of (domains c) x = Some dx" "map_of (domains c) y = Some dy"
    and "\<forall>wx\<in>set dx. supported i j wx dy" "\<forall>wy\<in>set dy. supported j i wy dx"
  shows "revise c x y = Inr (False, c)"
proof -
  have "has_corresponding_value w i j dy = Inr True" if "w \<in> set dx" for w
  proof -
    from that assms(4) have s: "supported i j w dy" by blast
    then have "i < length w" by (simp add: supported_def)
    moreover from assms(5) have "\<forall>wy\<in>set dy. j < length wy" by (simp add: supported_def)
    ultimately show ?thesis using s by (simp add: has_corresponding_value_total)
  qed
  with assms(3) have "revise_loop x y i j dx (domains c) False = Inr (False, domains c)"
    by (intro revise_loop_noop) auto
  with assms(1,2) show ?thesis by (simp add: revise_def)
qed

lemma ac3_loop_noop:
  assumes "\<And>x y i j. map_of (overlaps (crossword c)) (x, y) = Some (Some (i, j)) \<Longrightarrow>
             \<exists>dx dy. map_of (domains c) x = Some dx \<and> map_of (domains c) y = Some dy \<and>
               (\<forall>wx\<in>set dx. supported i j wx dy) \<and> (\<forall>wy\<in>set dy. supported j i wy dx)"
    and "set queue \<subseteq> set (map fst (overlaps (crossword c)))"
  shows "ac3_loop c queue = Inr (True, c)"
  using assms(2)
proof (induction queue)
  case Nil
  show ?case by simp
next
  case (Cons a queue)
  obtain x y where a: "a = (x, y)" by (cases a)
  with Cons.prems obtain ov where ov: "map_of (overlaps (crossword c)) (x, y) = Some ov"
    by (metis (no_types, lifting) domD dom_map_of_conv_image_fst image_set list.set_intros(1) subsetD)
  have "revise c x y = Inr (False, c)"
  proof (cases ov)
    case None
    with ov show ?thesis by (simp add: revise_def)
  next
    case (Some ij)
    obtain i j where "ij = (i, j)" by (cases ij)
    with Some ov have o: "map_of (overlaps (crossword c)) (x, y) = Some (Some (i, j))" by simp
    from assms(1) [OF o] revise_noop [OF o] show ?thesis by blast
  qed
  with Cons a show ?case by simp
qed

lemma small_puzzle_model: "puzzle_model small_puzzle"
  by code_simp

lemma stuck_puzzle_model: "puzzle_model stuck_puzzle"
  by code_simp

lemma ac3_small_puzzle:
  "\<exists>c'. ac3 (CrosswordCreator small_puzzle) None = Inr (True, c') \<and>
        domains c' = [(slot_across, [''CAT'']), (slot_down, [''ART''])]"
proof -
  have "case ac3 (CrosswordCreator small_puzzle) None of
          Inl e \<Rightarrow> False
        | Inr (b, c') \<Rightarrow> b \<and> domains c' = [(slot_across, [''CAT'']), (slot_down, [''ART''])]"
    by code_simp
  then show ?thesis by (auto split: sum.splits)
qed

lemma ac3_stuck_puzzle:
  "\<exists>c'. ac3 (CrosswordCreator stuck_puzzle) None = Inr (False, c') \<and>
        domains c' = [(slot_across, []), (slot_down, [''CAT'', ''TIE''])]"
proof -
  have "case ac3 (CrosswordCreator stuck_puzzle) None of
          Inl e \<Rightarrow> False
        | Inr (b, c') \<Rightarrow> \<not> b \<and> domains c' = [(slot_across, []), (slot_down, [''CAT'', ''TIE''])]"
    by code_simp
  then show ?thesis by (auto split: sum.splits)
qed

text \<open>
  Claim C3. On a puzzle model, when \<^verbatim>\<open>ac3\<close> with the default arcs returns \<^verbatim>\<open>True\<close>, every
  ordered pair of slots with a defined overlap \<open>(i, j)\<close> has both domains in the store
  and every word of the first has a word of the second that agrees with it at the
  overlap; when it returns \<^verbatim>\<open>False\<close>, some slot's domain is empty.
\<close>

theorem ac3_arc_consistent:
  assumes "puzzle_model (crossword c)"
  shows "(ac3 c None = Inr (True, c') \<longrightarrow>
           (\<forall>x y i j. map_of (overlaps (crossword c)) (x, y) = Some (Some (i, j)) \<longrightarrow>
              (\<exists>dx dy. map_of (domains c') x = Some dx \<and> map_of (domains c') y = Some dy \<and>
                 (\<forall>wx\<in>set dx. \<exists>wy\<in>set dy. i < length wx \<and> j < length wy \<and> wx ! i = wy ! j)))) \<and>
         (ac3 c None = Inr (False, c') \<longrightarrow> (\<exists>x. map_of (domains c') x = Some []))"
proof (intro conjI impI allI)
  fix x y i j
  assume "ac3 c None = Inr (True, c')"
    and "map_of (overlaps (crossword c)) (x, y) = Some (Some (i, j))"
  from ac3_arcs_ok [OF assms this] obtain dx dy where
    "map_of (domains c') x = Some dx" "map_of (domains c') y = Some dy"
    "\<forall>wx\<in>set dx. supported i j wx dy"
    by blast
  then show "\<exists>dx dy. map_of (domains c') x = Some dx \<and> map_of (domains c') y = Some dy \<and>
                 (\<forall>wx\<in>set dx. \<exists>wy\<in>set dy. i < length wx \<and> j < length wy \<and> wx ! i = wy ! j)"
    unfolding supported_def by blast
next
  assume "ac3 c None = Inr (False, c')"
  then show "\<exists>x. map_of (domains c') x = Some []"
    unfolding ac3_def by (blast dest: ac3_loop_False)
qed

theorem ac3_arc_consistent_witness:
  "puzzle_model small_puzzle \<and> puzzle_model stuck_puzzle \<and>
   (\<exists>c'. ac3 (CrosswordCreator small_puzzle) None = Inr (True, c') \<and>
      (\<exists>dx dy. map_of (domains c') slot_across = Some dx \<and> map_of (domains c') slot_down = Some dy \<and>
         (\<forall>wx\<in>set dx. \<exists>wy\<in>set dy. 1 < length wx \<and> 0 < length wy \<and> wx ! 1 = wy ! 0))) \<and>
   (\<exists>c'. ac3 (CrosswordCreator stuck_puzzle) None = Inr (False, c') \<and>
      (\<exists>x. map_of (domains c') x = Some []))"
proof -
  from ac3_small_puzzle obtain c1 where c1: "ac3 (CrosswordCreator small_puzzle) None = Inr (True, c1)"
    by blast
  from ac3_stuck_puzzle obtain c2 where c2: "ac3 (CrosswordCreator stuck_puzzle) None = Inr (False, c2)"
    by blast
  have m1: "puzzle_model (crossword (CrosswordCreator small_puzzle))"
    using small_puzzle_model by (simp add: CrosswordCreator_def)
  have m2: "puzzle_model (crossword (CrosswordCreator stuck_puzzle))"
    using stuck_puzzle_model by (simp add: CrosswordCreator_def)
  have ov: "map_of (overlaps (crossword (CrosswordCreator small_puzzle))) (slot_across, slot_down)
              = Some (Some (1, 0))"
    by (simp add: CrosswordCreator_def small_puzzle_def)
  from ac3_arc_consistent [OF m1, of c1] c1 ov
  have "\<exists>dx dy. map_of (domains c1) slot_across = Some dx \<and> map_of (domains c1) slot_down = Some dy \<and>
         (\<forall>wx\<in>set dx. \<exists>wy\<in>set dy. 1 < length wx \<and> 0 < length wy \<and> wx ! 1 = wy ! 0)"
    by blast
  moreover from ac3_arc_consistent [OF m2, of c2] c2
  have "\<exists>x. map_of (domains c2) x = Some []" by blast
  ultimately show ?thesis using c1 c2 small_puzzle_model stuck_puzzle_model by blast
qed

text \<open>
  Claim C5. On a puzzle model, when \<^verbatim>\<open>ac3\<close> with the default arcs has returned \<^verbatim>\<open>True\<close>,
  running it again on the resulting object returns \<^verbatim>\<open>True\<close> and leaves the object, so
  every domain, as it is.
\<close>

theorem ac3_idempotent:
  assumes "puzzle_model (crossword c)" and "ac3 c None = Inr (True, c')"
  shows "ac3 c' None = Inr (True, c')"
proof -
  from assms(2) have cw: "crossword c' = crossword c"
    unfolding ac3_def by (rule ac3_loop_crossword)
  have "ac3_loop c' (map fst (overlaps (crossword c'))) = Inr (True, c')"
  proof (rule ac3_loop_noop)
    fix x y i j
    assume "map_of (overlaps (crossword c')) (x, y) = Some (Some (i, j))"
    with cw have "map_of (overlaps (crossword c)) (x, y) = Some (Some (i, j))" by simp
    from ac3_arcs_ok [OF assms this]
    show "\<exists>dx dy. map_of (domains c') x = Some dx \<and> map_of (domains c') y = Some dy \<and>
               (\<forall>wx\<in>set dx. supported i j wx dy) \<and> (\<forall>wy\<in>set dy. supported j i wy dx)" .
  qed simp
  then show ?thesis by (simp add: ac3_def)
qed

theorem ac3_idempotent_witness:
  "puzzle_model small_puzzle \<and>
   (\<exists>c'. ac3 (CrosswordCreator small_puzzle) None = Inr (True, c') \<and>
         domains c' = [(slot_across, [''CAT'']), (slot_down, [''ART''])] \<and>
         ac3 c' None = Inr (True, c'))"
proof -
  from ac3_small_puzzle obtain c1 where
    c1: "ac3 (CrosswordCreator small_puzzle) None = Inr (True, c1)"
      "domains c1 = [(slot_across, [''CAT'']), (slot_down, [''ART''])]"
    by blast
  have m1: "puzzle_model (crossword (CrosswordCreator small_puzzle))"
    using small_puzzle_model by (simp add: CrosswordCreator_def)
  from ac3_idempotent [OF m1 c1(1)] c1 small_puzzle_model show ?thesis by blast
qed

section \<open>Monotone shrinking of the store\<close>

lemma store_le_refl: "store_le ds ds"
  by (simp add: store_le_def)

lemma store_le_trans: "store_le ds'' ds' \<Longrightarrow> store_le ds' ds \<Longrightarrow> store_le ds'' ds"
  unfolding store_le_def by (metis subset_trans)

lemma store_le_remove:
  "map_of ds x = Some dx \<Longrightarrow> store_le (AList.update x (removeAll v dx) ds) ds"
  unfolding store_le_def by (auto simp: update_conv' keys_update_present)

lemma revise_loop_store_le:
  "revise_loop x y i j vs ds r = Inr (r', ds') \<Longrightarrow> store_le ds' ds"
proof (induction vs arbitrary: ds r)
  case Nil
  then show ?case by (simp add: store_le_refl)
next
  case (Cons v vs)
  from Cons.prems obtain dy b where dy: "map_of ds y = Some dy"
    and b: "has_corresponding_value v i j dy = Inr b"
    by (auto split: sum.splits)
  show ?case
  proof (cases b)
    case True
    with Cons.prems dy b have "revise_loop x y i j vs ds r = Inr (r', ds')" by simp
    then show ?thesis by (rule Cons.IH)
  next
    case False
    with Cons.prems dy b obtain dx where dx: "map_of ds x = Some dx"
      and rec: "revise_loop x y i j vs (AList.update x (removeAll v dx) ds) True = Inr (r', ds')"
      by (auto split: sum.splits)
    from Cons.IH [OF rec] store_le_remove [OF dx] show ?thesis by (rule store_le_trans)
  qed
qed

lemma revise_store_le: "revise c x y = Inr (r, c') \<Longrightarrow> store_le (domains c') (domains c)"
  by (auto simp: revise_def store_le_refl split: sum.splits option.splits
      dest!: revise_loop_store_le)

lemma ac3_loop_store_le:
  "ac3_loop c queue = Inr (b, c') \<Longrightarrow> store_le (domains c') (domains c)"
proof (induction c queue rule: ac3_loop.induct)
  case (1 c)
  then show ?case by (simp add: store_le_refl)
next
  case (2 c x y queue)
  from "2.prems" obtain r c1 where rev: "revise c x y = Inr (r, c1)"
    by (auto split: sum.splits)
  then have le1: "store_le (domains c1) (domains c)" by (rule revise_store_le)
  show ?case
  proof (cases r)
    case False
    with "2.prems" rev have "ac3_loop c1 queue = Inr (b, c')" by simp
    from "2.IH"(2) [OF rev refl _ this] False le1 show ?thesis
      by (auto intro: store_le_trans)
  next
    case True
    with "2.prems" rev obtain dx where dx: "dict_get (domains c1) x = Inr dx"
      by (auto split: sum.splits)
    show ?thesis
    proof (cases "length dx = 0")
      case e: True
      with "2.prems" rev True dx have "c' = c1" by simp
      with le1 show ?thesis by simp
    next
      case ne: False
      with "2.prems" rev True dx have
        "ac3_loop c1 (queue @ map (\<lambda>z. (z, x))
                   (filter (\<lambda>z. z \<noteq> y) (neighbors (crossword c1) x))) = Inr (b, c')"
        by simp
      from "2.IH"(1) [OF rev refl _ dx ne this] True le1 show ?thesis
        by (auto intro: store_le_trans)
    qed
  qed
qed

lemma enforce_node_consistency_store_le:
  assumes "enforce_node_consistency c = Inr c'"
  shows "store_le (domains c') (domains c)"
proof -
  from enforce_node_consistency_result [of c] assms have
    k: "map fst (domains c') = map fst (domains c)" and
    m: "\<forall>var. map_of (domains c') var =
           map_option (filter (\<lambda>w. length w = var_length var)) (map_of (domains c) var)"
    by auto
  show ?thesis unfolding store_le_def
  proof (intro conjI allI impI)
    show "map fst (domains c') = map fst (domains c)" by fact
  next
    fix var d' assume "map_of (domains c') var = Some d'"
    with m have "map_option (filter (\<lambda>w. length w = var_length var)) (map_of (domains c) var) = Some d'"
      by simp
    then show "\<exists>d. map_of (domains c) var = Some d \<and> set d' \<subseteq> set d" by auto
  qed
qed

lemma run_call_store_le: "run_call c call = Inr c' \<Longrightarrow> store_le (domains c') (domains c)"
proof (cases call)
  case Call_enforce_node_consistency
  assume "run_call c call = Inr c'"
  with Call_enforce_node_consistency show ?thesis
    by (simp add: enforce_node_consistency_store_le)
next
  case (Call_revise x y)
  assume "run_call c call = Inr c'"
  with Call_revise show ?thesis
    by (auto split: sum.splits dest: revise_store_le)
next
  case (Call_ac3 arcs)
  assume "run_call c call = Inr c'"
  with Call_ac3 show ?thesis
    by (auto simp: ac3_def split: sum.splits dest: ac3_loop_store_le)
qed

lemma run_calls_store_le: "run_calls c calls = Inr c' \<Longrightarrow> store_le (domains c') (domains c)"
proof (induction calls arbitrary: c)
  case Nil
  then show ?case by (simp add: store_le_refl)
next
  case (Cons call calls)
  then show ?case
    by (auto split: sum.splits dest: run_call_store_le intro: store_le_trans)
qed

lemma CrosswordCreator_lookup:
  "var \<in> set (variables cw) \<Longrightarrow> map_of (domains (CrosswordCreator cw)) var = Some (words cw)"
  by (simp add: CrosswordCreator_def map_of_map_restrict)

text \<open>
  Claim C7. After any sequence of calls of \<^verbatim>\<open>enforce_node_consistency\<close>, \<^verbatim>\<open>revise\<close> and
  \<^verbatim>\<open>ac3\<close> that returns, the store has the same slots and the domain of each slot is a
  subset of its domain before the sequence; and the store of a new object gives every
  slot of the puzzle the whole vocabulary.
\<close>

theorem domains_shrink_monotonically:
  "(run_calls c calls = Inr c' \<longrightarrow>
      map fst (domains c') = map fst (domains c) \<and>
      (\<forall>var d'. map_of (domains c') var = Some d' \<longrightarrow>
         (\<exists>d. map_of (domains c) var = Some d \<and> set d' \<subseteq> set d))) \<and>
   map fst (domains (CrosswordCreator cw)) = variables cw \<and>
   (\<forall>var\<in>set (variables cw). map_of (domains (CrosswordCreator cw)) var = Some (words cw))"
proof (intro conjI impI ballI)
  assume "run_calls c calls = Inr c'"
  from run_calls_store_le [OF this]
  show "map fst (domains c') = map fst (domains c)"
    and "\<forall>var d'. map_of (domains c') var = Some d' \<longrightarrow>
         (\<exists>d. map_of (domains c) var = Some d \<and> set d' \<subseteq> set d)"
    unfolding store_le_def by blast+
next
  show "map fst (domains (CrosswordCreator cw)) = variables cw"
    by (simp add: CrosswordCreator_def comp_def)
next
  fix var assume "var \<in> set (variables cw)"
  then show "map_of (domains (CrosswordCreator cw)) var = Some (words cw)"
    by (rule CrosswordCreator_lookup)
qed

lemma run_calls_small_puzzle:
  "\<exists>c'. run_calls (CrosswordCreator small_puzzle)
           [Call_enforce_node_consistency, Call_revise slot_down slot_across, Call_ac3 None] = Inr c' \<and>
        domains c' = [(slot_across, [''CAT'']), (slot_down, [''ART''])]"
proof -
  have "case run_calls (CrosswordCreator small_puzzle)
           [Call_enforce_node_consistency, Call_revise slot_down slot_across, Call_ac3 None] of
          Inl e \<Rightarrow> False
        | Inr c' \<Rightarrow> domains c' = [(slot_across, [''CAT'']), (slot_down, [''ART''])]"
    by code_simp
  then show ?thesis by (auto split: sum.splits)
qed

theorem domains_shrink_monotonically_witness:
  "slot_across \<in> set (variables small_puzzle) \<and>
   map_of (domains (CrosswordCreator small_puzzle)) slot_across = Some (words small_puzzle) \<and>
   (\<exists>c'. run_calls (CrosswordCreator small_puzzle)
           [Call_enforce_node_consistency, Call_revise slot_down slot_across, Call_ac3 None] = Inr c' \<and>
         map_of (domains c') slot_across = Some [''CAT''] \<and>
         (\<exists>d. map_of (domains (CrosswordCreator small_puzzle)) slot_across = Some d \<and>
              set [''CAT''] \<subseteq> set d))"
proof -
  from run_calls_small_puzzle obtain c' where
    run: "run_calls (CrosswordCreator small_puzzle)
           [Call_enforce_node_consistency, Call_revise slot_down slot_across, Call_ac3 None] = Inr c'"
    and d: "domains c' = [(slot_across, [''CAT'']), (slot_down, [''ART''])]"
    by blast
  have v: "slot_across \<in> set (variables small_puzzle)" by (simp add: small_puzzle_def)
  from d have l: "map_of (domains c') slot_across = Some [''CAT'']" by simp
  note t = domains_shrink_monotonically [of "CrosswordCreator small_puzzle"
      "[Call_enforce_node_consistency, Call_revise slot_down slot_across, Call_ac3 None]" c'
      small_puzzle]
  from t v have "map_of (domains (CrosswordCreator small_puzzle)) slot_across = Some (words small_puzzle)"
    by blast
  moreover from t run l have
    "\<exists>d. map_of (domains (CrosswordCreator small_puzzle)) slot_across = Some d \<and>
              set [''CAT''] \<subseteq> set d"
    by blast
  ultimately show ?thesis using v run l by blast
qed

subsection \<open>Failure of \<^verbatim>\<open>ac3\<close>\<close>

text \<open>
  Failure is reported right after a revision, in the run, of an arc of the worklist: the
  revision started from a store that the run had reached, found the domain non-empty
  and left it empty.
\<close>

lemma ac3_loop_False_run:
  "ac3_loop c queue = Inr (False, c') \<Longrightarrow>
   \<exists>x y c1 dx. revise c1 x y = Inr (True, c') \<and> map_of (domains c1) x = Some dx \<and> dx \<noteq> [] \<and>
     map_of (domains c') x = Some [] \<and>
     crossword c1 = crossword c \<and> store_le (domains c1) (domains c) \<and>
     ((x, y) \<in> set queue \<or> x \<in> set (neighbors (crossword c) y))"
proof (induction c queue rule: ac3_loop.induct)
  case (1 c)
  then show ?case by simp
next
  case (2 c x y queue)
  from "2.prems" obtain r c1 where rev: "revise c x y = Inr (r, c1)"
    by (auto split: sum.splits)
  then have cw1: "crossword c1 = crossword c" by (rule revise_crossword)
  from rev have le1: "store_le (domains c1) (domains c)" by (rule revise_store_le)
  show ?case
  proof (cases r)
    case False
    with rev have c1: "c1 = c" by (simp add: revise_unrevised)
    from "2.prems" rev False have "ac3_loop c1 queue = Inr (False, c')" by simp
    from "2.IH"(2) [OF rev refl _ this] False obtain u v c2 du where
      "revise c2 u v = Inr (True, c')" "map_of (domains c2) u = Some du" "du \<noteq> []"
      "map_of (domains c') u = Some []" "crossword c2 = crossword c1"
      "store_le (domains c2) (domains c1)"
      "(u, v) \<in> set queue \<or> u \<in> set (neighbors (crossword c1) v)"
      by auto
    with c1 have "revise c2 u v = Inr (True, c') \<and> map_of (domains c2) u = Some du \<and> du \<noteq> [] \<and>
      map_of (domains c') u = Some [] \<and> crossword c2 = crossword c \<and>
      store_le (domains c2) (domains c) \<and>
      ((u, v) \<in> set ((x, y) # queue) \<or> u \<in> set (neighbors (crossword c) v))"
      by auto
    then show ?thesis by blast
  next
    case True
    with "2.prems" rev obtain dx where dx: "dict_get (domains c1) x = Inr dx"
      by (auto split: sum.splits)
    show ?thesis
    proof (cases "length dx = 0")
      case e: True
      with "2.prems" rev True dx have c': "c' = c1" by simp
      from rev True obtain d0 where "map_of (domains c) x = Some d0" "d0 \<noteq> []"
        by (auto dest: revise_True_nonempty)
      with rev True dx e c' have "revise c x y = Inr (True, c') \<and> map_of (domains c) x = Some d0 \<and>
        d0 \<noteq> [] \<and> map_of (domains c') x = Some [] \<and> crossword c = crossword c \<and>
        store_le (domains c) (domains c) \<and>
        ((x, y) \<in> set ((x, y) # queue) \<or> x \<in> set (neighbors (crossword c) y))"
        by (simp add: store_le_refl)
      then show ?thesis by blast
    next
      case ne: False
      let ?q = "queue @ map (\<lambda>z. (z, x)) (filter (\<lambda>z. z \<noteq> y) (neighbors (crossword c1) x))"
      from "2.prems" rev True dx ne have "ac3_loop c1 ?q = Inr (False, c')"
        by simp
      from "2.IH"(1) [OF rev refl _ dx ne this] True obtain u v c2 du where
        f: "revise c2 u v = Inr (True, c')" "map_of (domains c2) u = Some du" "du \<noteq> []"
        "map_of (domains c') u = Some []" and cw2: "crossword c2 = crossword c1"
        and le2: "store_le (domains c2) (domains c1)"
        and arc: "(u, v) \<in> set ?q \<or> u \<in> set (neighbors (crossword c1) v)"
        by auto
      from le2 le1 have le: "store_le (domains c2) (domains c)" by (rule store_le_trans)
      from arc cw1 have "(u, v) \<in> set ((x, y) # queue) \<or> u \<in> set (neighbors (crossword c) v)"
        by auto
      with f cw2 cw1 le have "revise c2 u v = Inr (True, c') \<and> map_of (domains c2) u = Some du \<and>
        du \<noteq> [] \<and> map_of (domains c') u = Some [] \<and> crossword c2 = crossword c \<and>
        store_le (domains c2) (domains c) \<and>
        ((u, v) \<in> set ((x, y) # queue) \<or> u \<in> set (neighbors (crossword c) v))"
        by simp
      then show ?thesis by blast
    qed
  qed
qed


text \<open>
  Claim C10. \<^verbatim>\<open>ac3\<close> returns \<^verbatim>\<open>False\<close> only right after a call of \<^verbatim>\<open>revise\<close>, on an arc of
  its worklist and from a store that the run had reached from the given one, that
  removed words from a non-empty domain and left it empty; that domain was not empty
  when \<^verbatim>\<open>ac3\<close> started. A domain that is empty from the start is no failure: for a slot
  without neighbours whose domain is empty, \<^verbatim>\<open>ac3\<close> returns \<^verbatim>\<open>True\<close> and the domain is still
  empty.
\<close>

theorem ac3_False_only_after_emptying:
  "(\<forall>c arcs c'. ac3 c arcs = Inr (False, c') \<longrightarrow>
      (\<exists>x y c1 dx d0.
         revise c1 x y = Inr (True, c') \<and>
         map_of (domains c1) x = Some dx \<and> dx \<noteq> [] \<and>
         map_of (domains c') x = Some [] \<and>
         crossword c1 = crossword c \<and> store_le (domains c1) (domains c) \<and>
         map_of (domains c) x = Some d0 \<and> d0 \<noteq> [] \<and>
         ((x, y) \<in> set (case arcs of None \<Rightarrow> map fst (overlaps (crossword c)) | Some as \<Rightarrow> as) \<or>
          x \<in> set (neighbors (crossword c) y)))) \<and>
   (\<exists>c x c'. neighbors (crossword c) x = [] \<and> map_of (domains c) x = Some [] \<and>
      ac3 c None = Inr (True, c') \<and> map_of (domains c') x = Some [])"
proof (intro conjI allI impI)
  fix c :: creator and arcs :: "(variable \<times> variable) list option" and c' :: creator
  let ?q = "case arcs of None \<Rightarrow> map fst (overlaps (crossword c)) | Some as \<Rightarrow> as"
  assume "ac3 c arcs = Inr (False, c')"
  then have "ac3_loop c ?q = Inr (False, c')" by (simp add: ac3_def)
  from ac3_loop_False_run [OF this] obtain x y c1 dx where
    f: "revise c1 x y = Inr (True, c')" "map_of (domains c1) x = Some dx" "dx \<noteq> []"
      "map_of (domains c') x = Some []" "crossword c1 = crossword c"
      "store_le (domains c1) (domains c)"
      "(x, y) \<in> set ?q \<or> x \<in> set (neighbors (crossword c) y)"
    by blast
  from f(2,6) obtain d0 where d0: "map_of (domains c) x = Some d0" "set dx \<subseteq> set d0"
    unfolding store_le_def by blast
  with f(3) have "d0 \<noteq> []" by auto
  with f d0(1) show "\<exists>x y c1 dx d0.
         revise c1 x y = Inr (True, c') \<and>
         map_of (domains c1) x = Some dx \<and> dx \<noteq> [] \<and>
         map_of (domains c') x = Some [] \<and>
         crossword c1 = crossword c \<and> store_le (domains c1) (domains c) \<and>
         map_of (domains c) x = Some d0 \<and> d0 \<noteq> [] \<and>
         ((x, y) \<in> set ?q \<or> x \<in> set (neighbors (crossword c) y))"
    by blast
next
  have "neighbors (crossword (CrosswordCreator lonely_puzzle)) slot_across = []"
    "map_of (domains (CrosswordCreator lonely_puzzle)) slot_across = Some []"
    "ac3 (CrosswordCreator lonely_puzzle) None = Inr (True, CrosswordCreator lonely_puzzle)"
    by (simp_all add: CrosswordCreator_def lonely_puzzle_def ac3_def)
  then show "\<exists>c x c'. neighbors (crossword c) x = [] \<and> map_of (domains c) x = Some [] \<and>
      ac3 c None = Inr (True, c') \<and> map_of (domains c') x = Some []"
    by metis
qed

theorem ac3_False_only_after_emptying_witness:
  "\<exists>c'. ac3 (CrosswordCreator stuck_puzzle) None = Inr (False, c') \<and>
     (\<exists>x y c1 dx d0.
         revise c1 x y = Inr (True, c') \<and>
         map_of (domains c1) x = Some dx \<and> dx \<noteq> [] \<and>
         map_of (domains c') x = Some [] \<and>
         crossword c1 = crossword (CrosswordCreator stuck_puzzle) \<and>
         store_le (domains c1) (domains (CrosswordCreator stuck_puzzle)) \<and>
         map_of (domains (CrosswordCreator stuck_puzzle)) x = Some d0 \<and> d0 \<noteq> [] \<and>
         ((x, y) \<in> set (map fst (overlaps (crossword (CrosswordCreator stuck_puzzle)))) \<or>
          x \<in> set (neighbors (crossword (CrosswordCreator stuck_puzzle)) y)))"
proof -
  from ac3_stuck_puzzle obtain c2 where c2: "ac3 (CrosswordCreator stuck_puzzle) None = Inr (False, c2)"
    by blast
  from ac3_False_only_after_emptying have
    "ac3 (CrosswordCreator stuck_puzzle) None = Inr (False, c2) \<longrightarrow>
      (\<exists>x y c1 dx d0.
         revise c1 x y = Inr (True, c2) \<and>
         map_of (domains c1) x = Some dx \<and> dx \<noteq> [] \<and>
         map_of (domains c2) x = Some [] \<and>
         crossword c1 = crossword (CrosswordCreator stuck_puzzle) \<and>
         store_le (domains c1) (domains (CrosswordCreator stuck_puzzle)) \<and>
         map_of (domains (CrosswordCreator stuck_puzzle)) x = Some d0 \<and> d0 \<noteq> [] \<and>
         ((x, y) \<in> set (case None of None \<Rightarrow> map fst (overlaps (crossword (CrosswordCreator stuck_puzzle)))
                                   | Some as \<Rightarrow> as) \<or>
          x \<in> set (neighbors (crossword (CrosswordCreator stuck_puzzle)) y)))"
    by blast
  with c2 show ?thesis by auto
qed

section \<open>The search\<close>

declare backtrack.simps [simp del] backtrack_loop.simps [simp del]

lemma backtrack_unfold:
  "backtrack c a =
     (if list_all (\<lambda>variable. variable \<in> set (map fst a)) (variables (crossword c))
      then Inr (Some a, a, c)
      else
        (case select_unassigned_variable c a of
           Inl e \<Rightarrow> Inl e
         | Inr (var, c2) \<Rightarrow>
             (case order_domain_values c var a of
                Inl e \<Rightarrow> Inl e
              | Inr (vals, c3) \<Rightarrow> backtrack_loop c var vals a)))"
proof (cases "list_all (\<lambda>variable. variable \<in> set (map fst a)) (variables (crossword c))")
  case True
  then show ?thesis by (simp add: backtrack.simps assignment_complete_def)
next
  case False
  show ?thesis
  proof (cases "select_unassigned_variable c a")
    case (Inl e)
    with False show ?thesis by (simp add: backtrack.simps assignment_complete_def)
  next
    case (Inr p)
    obtain var c2 where p: "p = (var, c2)" by (cases p)
    with Inr have c2: "c2 = c" by (auto dest: select_unassigned_variable_frame(1))
    show ?thesis
    proof (cases "order_domain_values c var a")
      case (Inl e)
      with False Inr p c2 show ?thesis by (simp add: backtrack.simps assignment_complete_def)
    next
      case odv: (Inr q)
      obtain vals c3 where q: "q = (vals, c3)" by (cases q)
      with odv have "c3 = c" by (auto dest: order_domain_values_frame)
      with False Inr p c2 odv q show ?thesis
        by (simp add: backtrack.simps assignment_complete_def)
    qed
  qed
qed

lemma backtrack_loop_unfold:
  "backtrack_loop c var (val # rest) a =
     (case consistent c (AList.update var val a) of
        Inl e \<Rightarrow> Inl e
      | Inr (ok, c1) \<Rightarrow>
          (case (if ok then backtrack c (AList.update var val a)
                 else Inr (None, AList.update var val a, c)) of
             Inl e \<Rightarrow> Inl e
           | Inr (Some result, a2, c2) \<Rightarrow> Inr (Some result, a2, c2)
           | Inr (None, a2, c2) \<Rightarrow>
               (case dict_del a2 var of
                  Inl e \<Rightarrow> Inl e
                | Inr a3 \<Rightarrow> backtrack_loop c2 var rest a3)))"
proof (cases "consistent c (AList.update var val a)")
  case (Inl e)
  then show ?thesis by (simp add: backtrack_loop.simps)
next
  case (Inr p)
  obtain ok c1 where p: "p = (ok, c1)" by (cases p)
  with Inr have "c1 = c" by (auto dest: consistent_frame)
  with Inr p show ?thesis by (simp add: backtrack_loop.simps)
qed

lemma backtrack_loop_Nil [simp]: "backtrack_loop c var [] a = Inr (None, a, c)"
  by (simp add: backtrack_loop.simps)

lemma backtrack_post:
  "\<forall>out. backtrack c a = Inr out \<longrightarrow> search_post c a True out"
  "\<forall>out. var \<notin> fst ` set a \<longrightarrow> backtrack_loop c var vals a = Inr out \<longrightarrow> search_post c a False out"
proof (induction c a and c var vals a rule: backtrack_backtrack_loop.induct)
  case (1 c a)
  show ?case
  proof (intro allI impI)
    fix out assume eq: "backtrack c a = Inr out"
    show "search_post c a True out"
    proof (cases "list_all (\<lambda>variable. variable \<in> set (map fst a)) (variables (crossword c))")
      case True
      with eq show ?thesis
        by (auto simp: backtrack_unfold search_post_def)
    next
      case False
      then have ac: "assignment_complete c a = Inr (False, c)"
        by (simp add: assignment_complete_def)
      from eq False obtain var c2 where sel: "select_unassigned_variable c a = Inr (var, c2)"
        by (auto simp: backtrack_unfold split: sum.splits)
      from select_unassigned_variable_frame [OF sel]
      have c2: "c2 = c" and fresh: "var \<notin> fst ` set a" by blast+
      from eq False sel obtain vals c3 where odv: "order_domain_values c var a = Inr (vals, c3)"
        by (auto simp: backtrack_unfold split: sum.splits)
      then have c3: "c3 = c" by (rule order_domain_values_frame)
      from eq False sel odv have loop: "backtrack_loop c var vals a = Inr out"
        by (simp add: backtrack_unfold)
      from "1.IH" [OF ac refl refl sel [unfolded c2] refl odv [unfolded c3] refl] fresh loop
      have "search_post c a False out" by blast
      then show ?thesis by (auto simp: search_post_def split: option.splits)
    qed
  qed
next
  case (2 c var a)
  show ?case by (simp add: search_post_def)
next
  case (3 c var val rest a)
  show ?case
  proof (intro allI impI)
    fix out
    assume fresh: "var \<notin> fst ` set a"
      and eq: "backtrack_loop c var (val # rest) a = Inr out"
    let ?a1 = "AList.update var val a"
    from eq obtain ok c1 where con: "consistent c ?a1 = Inr (ok, c1)"
      by (auto simp: backtrack_loop_unfold split: sum.splits)
    then have c1: "c1 = c" by (rule consistent_frame)
    let ?inner = "if ok then backtrack c ?a1 else Inr (None, ?a1, c)"
    from eq con obtain r2 a2 c2 where inner: "?inner = Inr (r2, a2, c2)"
      by (auto simp: backtrack_loop_unfold split: sum.splits)
    have post2: "search_post c ?a1 True (r2, a2, c2)"
    proof (cases ok)
      case True
      with "3.IH"(1) [OF con [unfolded c1] refl] inner show ?thesis by simp
    next
      case False
      with inner show ?thesis by (simp add: search_post_def)
    qed
    have del: "dict_del ?a1 var = Inr a"
      using fresh by (simp add: dict_del_def delete_update_same dom_update)
    show "search_post c a False out"
    proof (cases r2)
      case (Some res)
      with eq con inner have out: "out = (Some res, a2, c2)"
        by (simp add: backtrack_loop_unfold)
      from inner Some have ok: ok by (auto split: if_splits)
      with con c1 have "consistent c ?a1 = Inr (True, c)" by simp
      with post2 Some out show ?thesis
        by (auto simp: search_post_def distinct_update)
    next
      case None
      with post2 have a2: "a2 = ?a1" and c2: "c2 = c" by (simp_all add: search_post_def)
      from eq con inner None a2 c2 del have loop: "backtrack_loop c var rest a = Inr out"
        by (simp add: backtrack_loop_unfold)
      from "3.IH"(2) [OF con [unfolded c1] refl, of "(r2, a2, c2)" r2 "(a2, c2)" a2 c2 a]
        inner None a2 c2 del c1 fresh loop
      show ?thesis by simp
    qed
  qed
qed

lemma consistent_inner_True:
  "consistent_inner c v1 w1 a = Inr True \<Longrightarrow> (v2, w2) \<in> set a \<Longrightarrow> v1 \<noteq> v2 \<Longrightarrow>
   agree (crossword c) v1 w1 v2 w2"
proof (induction a)
  case Nil
  then show ?case by simp
next
  case (Cons p a)
  obtain v w where p: "p = (v, w)" by (cases p)
  show ?case
  proof (cases "(v2, w2) = (v, w)")
    case True
    with Cons.prems p show ?thesis
      by (auto simp: agree_def split: sum.splits option.splits if_splits)
  next
    case False
    with Cons.prems(2) p have "(v2, w2) \<in> set a" by auto
    moreover from Cons.prems(1) p have "consistent_inner c v1 w1 a = Inr True"
      by (auto split: sum.splits option.splits if_splits)
    ultimately show ?thesis using Cons.IH Cons.prems(3) by blast
  qed
qed

lemma consistent_outer_True:
  "consistent_outer c xs a = Inr True \<Longrightarrow> (v1, w1) \<in> set xs \<Longrightarrow>
   consistent_inner c v1 w1 a = Inr True"
proof (induction xs)
  case Nil
  then show ?case by simp
next
  case (Cons p xs)
  obtain v w where p: "p = (v, w)" by (cases p)
  with Cons show ?case
    by (auto split: sum.splits bool.splits)
qed

lemma consistent_True:
  assumes "consistent c a = Inr (True, c')"
  shows "distinct (map snd a)"
    and "(v1, w1) \<in> set a \<Longrightarrow> (v2, w2) \<in> set a \<Longrightarrow> v1 \<noteq> v2 \<Longrightarrow>
         agree (crossword c) v1 w1 v2 w2"
proof -
  from assms have card: "card (set (map snd a)) = length a"
    and outer: "consistent_outer c a a = Inr True"
    by (auto simp: consistent_def split: if_splits sum.splits)
  from card show "distinct (map snd a)"
    by (metis card_distinct length_map)
  assume "(v1, w1) \<in> set a" "(v2, w2) \<in> set a" "v1 \<noteq> v2"
  with consistent_outer_True [OF outer] consistent_inner_True
  show "agree (crossword c) v1 w1 v2 w2" by blast
qed

lemma enforce_node_consistency_crossword:
  "enforce_node_consistency c = Inr c' \<Longrightarrow> crossword c' = crossword c"
  by (auto simp: enforce_node_consistency_def split: sum.splits)

lemma solve_backtrack:
  assumes "solve c = Inr (r, c')"
  shows "\<exists>c2 a'. crossword c2 = crossword c \<and> backtrack c2 [] = Inr (r, a', c') \<and> c' = c2"
proof -
  from assms obtain c1 ok c2 a' where
    enc: "enforce_node_consistency c = Inr c1" and ac: "ac3 c1 None = Inr (ok, c2)"
    and bt: "backtrack c2 [] = Inr (r, a', c')"
    by (auto simp: solve_def split: sum.splits)
  from ac have "crossword c2 = crossword c1" unfolding ac3_def by (rule ac3_loop_crossword)
  with enc have "crossword c2 = crossword c" by (simp add: enforce_node_consistency_crossword)
  moreover from backtrack_post(1) [of c2 "[]"] bt have "c' = c2" by (simp add: search_post_def)
  ultimately show ?thesis using bt by blast
qed

lemma map_of_distinct_in: "distinct (map fst a) \<Longrightarrow> map_of a v = Some w \<longleftrightarrow> (v, w) \<in> set a"
  by simp

text \<open>
  Claim C1. When \<^verbatim>\<open>solve\<close> returns an assignment, it gives every slot of the puzzle a
  word, the words of different slots are different, and for every two different
  assigned slots with a defined overlap \<open>(i, j)\<close> the word of the first at \<open>i\<close> is the
  word of the second at \<open>j\<close>.
\<close>

theorem solve_result_complete_consistent:
  assumes "solve c = Inr (Some a, c')"
  shows "(\<forall>var\<in>set (variables (crossword c)). \<exists>w. map_of a var = Some w) \<and>
         (\<forall>v1 v2 w1 w2. v1 \<noteq> v2 \<and> map_of a v1 = Some w1 \<and> map_of a v2 = Some w2 \<longrightarrow> w1 \<noteq> w2) \<and>
         (\<forall>v1 v2 w1 w2 i j.
            v1 \<noteq> v2 \<and> map_of a v1 = Some w1 \<and> map_of a v2 = Some w2 \<and>
            map_of (overlaps (crossword c)) (v1, v2) = Some (Some (i, j)) \<longrightarrow>
            i < length w1 \<and> j < length w2 \<and> w1 ! i = w2 ! j)"
proof -
  from solve_backtrack [OF assms] obtain c2 a' where
    cw: "crossword c2 = crossword c" and bt: "backtrack c2 [] = Inr (Some a, a', c')"
    by blast
  from backtrack_post(1) [of c2 "[]"] bt have
    complete: "list_all (\<lambda>variable. variable \<in> set (map fst a)) (variables (crossword c2))"
    and cons: "a = [] \<or> consistent c2 a = Inr (True, c2)"
    and dist: "distinct (map fst a)"
    by (auto simp: search_post_def)
  have keys: "\<exists>w. map_of a var = Some w" if "var \<in> set (variables (crossword c))" for var
  proof -
    from complete that cw have "var \<in> fst ` set a" by (auto simp: list_all_iff)
    then show ?thesis by (metis domD dom_map_of_conv_image_fst)
  qed
  have words: "w1 \<noteq> w2"
    if "v1 \<noteq> v2" "map_of a v1 = Some w1" "map_of a v2 = Some w2" for v1 v2 w1 w2
  proof -
    from that have in1: "(v1, w1) \<in> set a" and in2: "(v2, w2) \<in> set a"
      by (auto dest: map_of_SomeD)
    then have "a \<noteq> []" by auto
    with cons have "distinct (map snd a)" by (auto dest: consistent_True(1))
    with in1 in2 that(1) show ?thesis
      by (metis distinct_map inj_on_def snd_conv prod.inject)
  qed
  have agree: "i < length w1 \<and> j < length w2 \<and> w1 ! i = w2 ! j"
    if "v1 \<noteq> v2" "map_of a v1 = Some w1" "map_of a v2 = Some w2"
      "map_of (overlaps (crossword c)) (v1, v2) = Some (Some (i, j))" for v1 v2 w1 w2 i j
  proof -
    from that have in1: "(v1, w1) \<in> set a" and in2: "(v2, w2) \<in> set a"
      by (auto dest: map_of_SomeD)
    then have "a \<noteq> []" by auto
    with cons have "consistent c2 a = Inr (True, c2)" by simp
    from consistent_True(2) [OF this in1 in2 that(1)] that(4) cw show ?thesis
      by (simp add: agree_def)
  qed
  from keys words agree show ?thesis by blast
qed

lemma solve_small_puzzle:
  "\<exists>c'. solve (CrosswordCreator small_puzzle) = Inr (Some [(slot_across, ''CAT''), (slot_down, ''ART'')], c')"
proof -
  have "case solve (CrosswordCreator small_puzzle) of
          Inl e \<Rightarrow> False
        | Inr (r, c') \<Rightarrow> r = Some [(slot_across, ''CAT''), (slot_down, ''ART'')]"
    by code_simp
  then show ?thesis by (auto split: sum.splits)
qed

theorem solve_result_complete_consistent_witness:
  "(\<exists>c'. solve (CrosswordCreator small_puzzle)
          = Inr (Some [(slot_across, ''CAT''), (slot_down, ''ART'')], c')) \<and>
   map_of [(slot_across, ''CAT''), (slot_down, ''ART'')] slot_across = Some ''CAT'' \<and>
   map_of [(slot_across, ''CAT''), (slot_down, ''ART'')] slot_down = Some ''ART'' \<and>
   map_of (overlaps small_puzzle) (slot_across, slot_down) = Some (Some (1, 0)) \<and>
   ''CAT'' \<noteq> ''ART'' \<and> ''CAT'' ! 1 = ''ART'' ! 0"
proof -
  from solve_small_puzzle obtain c' where
    s: "solve (CrosswordCreator small_puzzle)
          = Inr (Some [(slot_across, ''CAT''), (slot_down, ''ART'')], c')"
    by blast
  have ne: "slot_across \<noteq> slot_down" by (simp add: slot_across_def slot_down_def)
  have m1: "map_of [(slot_across, ''CAT''), (slot_down, ''ART'')] slot_across = Some ''CAT''"
    by simp
  have m2: "map_of [(slot_across, ''CAT''), (slot_down, ''ART'')] slot_down = Some ''ART''"
    using ne by simp
  have ov: "map_of (overlaps (crossword (CrosswordCreator small_puzzle))) (slot_across, slot_down)
              = Some (Some (1, 0))"
    by (simp add: CrosswordCreator_def small_puzzle_def)
  from solve_result_complete_consistent [OF s] ne m1 m2 ov
  have "''CAT'' \<noteq> ''ART'' \<and> ''CAT'' ! 1 = ''ART'' ! 0" by blast
  with s m1 m2 ov show ?thesis by (auto simp: CrosswordCreator_def)
qed

text \<open>
  Claim C6. When \<^verbatim>\<open>backtrack\<close> returns \<^verbatim>\<open>None\<close>, the dictionary it was given is exactly
  as it was at entry; and the result of \<^verbatim>\<open>solve\<close> is \<^verbatim>\<open>None\<close> or an assignment that has
  every slot of the puzzle, never a partial one.
\<close>

theorem backtrack_None_restores_assignment:
  "(backtrack c a = Inr (None, a', c') \<longrightarrow> a' = a) \<and>
   (solve c = Inr (r, c'') \<longrightarrow>
      r = None \<or> (\<exists>res. r = Some res \<and> (\<forall>var\<in>set (variables (crossword c)). var \<in> fst ` set res)))"
proof (intro conjI impI)
  assume "backtrack c a = Inr (None, a', c')"
  with backtrack_post(1) [of c a] show "a' = a" by (simp add: search_post_def)
next
  assume "solve c = Inr (r, c'')"
  from solve_backtrack [OF this] obtain c2 a2 where
    cw: "crossword c2 = crossword c" and bt: "backtrack c2 [] = Inr (r, a2, c'')"
    by blast
  show "r = None \<or> (\<exists>res. r = Some res \<and> (\<forall>var\<in>set (variables (crossword c)). var \<in> fst ` set res))"
  proof (cases r)
    case None
    then show ?thesis by simp
  next
    case (Some res)
    with backtrack_post(1) [of c2 "[]"] bt cw show ?thesis
      by (auto simp: search_post_def list_all_iff)
  qed
qed

lemma backtrack_twin_puzzle:
  "\<exists>a' c'. backtrack (CrosswordCreator twin_puzzle) [(slot_across, ''CAT'')] = Inr (None, a', c')"
proof -
  have "case backtrack (CrosswordCreator twin_puzzle) [(slot_across, ''CAT'')] of
          Inl e \<Rightarrow> False
        | Inr (r, a', c') \<Rightarrow> r = None"
    by code_simp
  then show ?thesis by (auto split: sum.splits)
qed

theorem backtrack_None_restores_assignment_witness:
  "(\<exists>c'. backtrack (CrosswordCreator twin_puzzle) [(slot_across, ''CAT'')]
           = Inr (None, [(slot_across, ''CAT'')], c')) \<and>
   (\<exists>res c'. solve (CrosswordCreator small_puzzle) = Inr (Some res, c') \<and>
      slot_across \<in> fst ` set res \<and> slot_down \<in> fst ` set res)"
proof -
  from backtrack_twin_puzzle obtain a' c' where
    bt: "backtrack (CrosswordCreator twin_puzzle) [(slot_across, ''CAT'')] = Inr (None, a', c')"
    by blast
  from solve_small_puzzle obtain res c'' where
    s: "solve (CrosswordCreator small_puzzle) = Inr (Some res, c'')"
    by blast
  from backtrack_None_restores_assignment
    [of "CrosswordCreator twin_puzzle" "[(slot_across, ''CAT'')]" a' c'] bt
  have "a' = [(slot_across, ''CAT'')]" by blast
  moreover from backtrack_None_restores_assignment
    [of "CrosswordCreator small_puzzle" _ _ _ "Some res" c''] s
  have "\<forall>var\<in>set (variables (crossword (CrosswordCreator small_puzzle))). var \<in> fst ` set res"
    by blast
  then have "slot_across \<in> fst ` set res \<and> slot_down \<in> fst ` set res"
    by (simp add: CrosswordCreator_def small_puzzle_def)
  ultimately show ?thesis using bt s by blast
qed

text \<open>
  Claim C9. \<^verbatim>\<open>assignment_complete\<close>, \<^verbatim>\<open>consistent\<close>, \<^verbatim>\<open>order_domain_values\<close>,
  \<^verbatim>\<open>select_unassigned_variable\<close> and \<^verbatim>\<open>backtrack\<close>, when they return, leave the object, so
  the domain of every slot, exactly as it was before the call.
\<close>

theorem search_leaves_domains:
  "(assignment_complete c a = Inr (b1, c1) \<longrightarrow> domains c1 = domains c) \<and>
   (consistent c a = Inr (b2, c2) \<longrightarrow> domains c2 = domains c) \<and>
   (order_domain_values c var a = Inr (vals, c3) \<longrightarrow> domains c3 = domains c) \<and>
   (select_unassigned_variable c a = Inr (v, c4) \<longrightarrow> domains c4 = domains c) \<and>
   (backtrack c a = Inr (r, a', c5) \<longrightarrow> domains c5 = domains c)"
proof (intro conjI impI)
  assume "assignment_complete c a = Inr (b1, c1)"
  then show "domains c1 = domains c" by (auto dest: assignment_complete_frame)
next
  assume "consistent c a = Inr (b2, c2)"
  then show "domains c2 = domains c" by (auto dest: consistent_frame)
next
  assume "order_domain_values c var a = Inr (vals, c3)"
  then show "domains c3 = domains c" by (auto dest: order_domain_values_frame)
next
  assume "select_unassigned_variable c a = Inr (v, c4)"
  then show "domains c4 = domains c" by (auto dest: select_unassigned_variable_frame(1))
next
  assume "backtrack c a = Inr (r, a', c5)"
  with backtrack_post(1) [of c a] show "domains c5 = domains c" by (simp add: search_post_def)
qed

lemma search_calls_small_puzzle:
  "\<exists>b1 c1 b2 c2 vals c3 v c4 r a' c5.
     assignment_complete (CrosswordCreator small_puzzle) [] = Inr (b1, c1) \<and>
     consistent (CrosswordCreator small_puzzle) [] = Inr (b2, c2) \<and>
     order_domain_values (CrosswordCreator small_puzzle) slot_across [] = Inr (vals, c3) \<and>
     select_unassigned_variable (CrosswordCreator small_puzzle) [] = Inr (v, c4) \<and>
     backtrack (CrosswordCreator small_puzzle) [] = Inr (r, a', c5)"
proof -
  have "case assignment_complete (CrosswordCreator small_puzzle) [] of
          Inl e \<Rightarrow> False | Inr p \<Rightarrow> True"
    "case consistent (CrosswordCreator small_puzzle) [] of
          Inl e \<Rightarrow> False | Inr p \<Rightarrow> True"
    "case order_domain_values (CrosswordCreator small_puzzle) slot_across [] of
          Inl e \<Rightarrow> False | Inr p \<Rightarrow> True"
    "case select_unassigned_variable (CrosswordCreator small_puzzle) [] of
          Inl e \<Rightarrow> False | Inr p \<Rightarrow> True"
    "case backtrack (CrosswordCreator small_puzzle) [] of
          Inl e \<Rightarrow> False | Inr p \<Rightarrow> True"
    by code_simp+
  then show ?thesis by (auto split: sum.splits)
qed

theorem search_leaves_domains_witness:
  "\<exists>b1 c1 b2 c2 vals c3 v c4 r a' c5.
     assignment_complete (CrosswordCreator small_puzzle) [] = Inr (b1, c1) \<and>
     consistent (CrosswordCreator small_puzzle) [] = Inr (b2, c2) \<and>
     order_domain_values (CrosswordCreator small_puzzle) slot_across [] = Inr (vals, c3) \<and>
     select_unassigned_variable (CrosswordCreator small_puzzle) [] = Inr (v, c4) \<and>
     backtrack (CrosswordCreator small_puzzle) [] = Inr (r, a', c5) \<and>
     domains c1 = domains (CrosswordCreator small_puzzle) \<and>
     domains c2 = domains (CrosswordCreator small_puzzle) \<and>
     domains c3 = domains (CrosswordCreator small_puzzle) \<and>
     domains c4 = domains (CrosswordCreator small_puzzle) \<and>
     domains c5 = domains (CrosswordCreator small_puzzle)"
proof -
  from search_calls_small_puzzle obtain b1 c1 b2 c2 vals c3 v c4 r a' c5 where calls:
    "assignment_complete (CrosswordCreator small_puzzle) [] = Inr (b1, c1)"
    "consistent (CrosswordCreator small_puzzle) [] = Inr (b2, c2)"
    "order_domain_values (CrosswordCreator small_puzzle) slot_across [] = Inr (vals, c3)"
    "select_unassigned_variable (CrosswordCreator small_puzzle) [] = Inr (v, c4)"
    "backtrack (CrosswordCreator small_puzzle) [] = Inr (r, a', c5)"
    by blast
  from search_leaves_domains [of "CrosswordCreator small_puzzle" "[]" b1 c1 b2 c2
      slot_across vals c3 v c4 r a' c5] calls
  have "domains c1 = domains (CrosswordCreator small_puzzle) \<and>
     domains c2 = domains (CrosswordCreator small_puzzle) \<and>
     domains c3 = domains (CrosswordCreator small_puzzle) \<and>
     domains c4 = domains (CrosswordCreator small_puzzle) \<and>
     domains c5 = domains (CrosswordCreator small_puzzle)"
    by blast
  with calls show ?thesis by blast
qed

section \<open>Value ordering\<close>

lemma odv_count_result:
  "odv_count c var a val ns cnt = Inr k \<Longrightarrow>
   k = cnt + sum_list
       (map (\<lambda>neighbor. length (filter (\<lambda>v. v \<noteq> val) (domain_of (domains c) neighbor)))
          (filter (\<lambda>neighbor. neighbor \<notin> fst ` set a \<and> has_overlap (crossword c) var neighbor) ns))"
proof (induction ns arbitrary: cnt)
  case Nil
  then show ?case by simp
next
  case (Cons n ns)
  show ?case
  proof (cases "n \<notin> fst ` set a")
    case False
    with Cons show ?thesis by simp
  next
    case True
    with Cons.prems obtain ov where ov: "map_of (overlaps (crossword c)) (var, n) = Some ov"
      by (auto split: sum.splits)
    show ?thesis
    proof (cases ov)
      case None
      with ov have "\<not> has_overlap (crossword c) var n" by (simp add: has_overlap_def)
      with Cons True ov None show ?thesis by simp
    next
      case (Some ij)
      with ov have h: "has_overlap (crossword c) var n" by (simp add: has_overlap_def)
      from Cons.prems True ov Some obtain dn where dn: "map_of (domains c) n = Some dn"
        by (auto split: sum.splits)
      with Cons.prems True ov Some have
        "odv_count c var a val ns (cnt + length (filter (\<lambda>v. v \<noteq> val) dn)) = Inr k"
        by simp
      from Cons.IH [OF this] True h dn show ?thesis by (simp add: domain_of_def)
    qed
  qed
qed

lemma odv_values_result:
  "odv_values c var a d count_values = Inr cv \<Longrightarrow>
   cv = count_values @ map (\<lambda>val. (val, rule_out_count c var a val)) d"
proof (induction d arbitrary: count_values)
  case Nil
  then show ?case by simp
next
  case (Cons val d)
  from Cons.prems obtain k where k: "odv_count c var a val (neighbors (crossword c) var) 0 = Inr k"
    by (auto split: sum.splits)
  from odv_count_result [OF this] have "k = rule_out_count c var a val"
    by (simp add: rule_out_count_def)
  with Cons.prems k have
    "odv_values c var a d (count_values @ [(val, rule_out_count c var a val)]) = Inr cv"
    by simp
  from Cons.IH [OF this] show ?case by simp
qed

lemma insort_key_tagged:
  "insort_key snd (x, f x) (map (\<lambda>y. (y, f y)) xs) = map (\<lambda>y. (y, f y)) (insort_key f x xs)"
  by (induction xs) auto

lemma sort_key_tagged:
  "sort_key snd (map (\<lambda>y. (y, f y)) xs) = map (\<lambda>y. (y, f y)) (sort_key f xs)"
  by (induction xs) (auto simp: insort_key_tagged sort_key_def)

lemma order_domain_values_result:
  assumes "order_domain_values c var a = Inr (vals, c')"
  shows "\<exists>d. map_of (domains c) var = Some d \<and> vals = sort_key (rule_out_count c var a) d"
proof -
  from assms obtain d cv where d: "map_of (domains c) var = Some d"
    and cv: "odv_values c var a d [] = Inr cv" and vals: "vals = map fst (sort_key snd cv)"
    by (auto simp: order_domain_values_def split: sum.splits)
  from odv_values_result [OF cv] have "cv = map (\<lambda>val. (val, rule_out_count c var a val)) d"
    by simp
  with vals have "vals = sort_key (rule_out_count c var a) d"
    by (simp add: sort_key_tagged comp_def)
  with d show ?thesis by blast
qed

text \<open>
  Claim C8. When \<^verbatim>\<open>order_domain_values\<close> returns, its list has exactly the words of the
  slot's domain, in ascending order of the rule-out count, and the words with the same
  count are in the order in which the domain enumerates them.
\<close>

theorem order_domain_values_sorted_stable:
  assumes "order_domain_values c var a = Inr (vals, c')"
    and "map_of (domains c) var = Some d"
  shows "mset vals = mset d \<and>
         sorted (map (rule_out_count c var a) vals) \<and>
         (\<forall>k. filter (\<lambda>val. rule_out_count c var a val = k) vals
              = filter (\<lambda>val. rule_out_count c var a val = k) d)"
proof -
  from order_domain_values_result [OF assms(1)] assms(2)
  have "vals = sort_key (rule_out_count c var a) d" by auto
  then show ?thesis by (simp add: sort_key_stable)
qed

lemma order_domain_values_uneven:
  "\<exists>c'. order_domain_values uneven_creator slot_across [] = Inr ([''ART'', ''TIE'', ''CAT''], c')"
proof -
  have "case order_domain_values uneven_creator slot_across [] of
          Inl e \<Rightarrow> False
        | Inr (vals, c') \<Rightarrow> vals = [''ART'', ''TIE'', ''CAT'']"
    by code_simp
  then show ?thesis by (auto split: sum.splits)
qed

theorem order_domain_values_sorted_stable_witness:
  "(\<exists>c'. order_domain_values uneven_creator slot_across [] = Inr ([''ART'', ''TIE'', ''CAT''], c')) \<and>
   map_of (domains uneven_creator) slot_across = Some [''CAT'', ''ART'', ''TIE''] \<and>
   mset [''ART'', ''TIE'', ''CAT''] = mset [''CAT'', ''ART'', ''TIE''] \<and>
   sorted (map (rule_out_count uneven_creator slot_across []) [''ART'', ''TIE'', ''CAT'']) \<and>
   filter (\<lambda>val. rule_out_count uneven_creator slot_across [] val = 1) [''ART'', ''TIE'', ''CAT'']
     = filter (\<lambda>val. rule_out_count uneven_creator slot_across [] val = 1) [''CAT'', ''ART'', ''TIE'']"
proof -
  from order_domain_values_uneven obtain c' where
    o: "order_domain_values uneven_creator slot_across [] = Inr ([''ART'', ''TIE'', ''CAT''], c')"
    by blast
  have d: "map_of (domains uneven_creator) slot_across = Some [''CAT'', ''ART'', ''TIE'']"
    by (simp add: uneven_creator_def)
  from order_domain_values_sorted_stable [OF o d] o d show ?thesis by blast
qed

section \<open>Completeness of \<^verbatim>\<open>solve\<close>\<close>



































end
